theory Spec2Isabelle
  imports Main "HOL-Library.Multiset"
begin

section \<open>Deadlock Escape: the resource allocation and deadlock detection engine\<close>

text \<open>
  A shallow embedding of the engine of \<^verbatim>\<open>src/deadlock_escape.py\<close>: the classes
  \<^verbatim>\<open>Resource\<close>, \<^verbatim>\<open>Process\<close> and \<^verbatim>\<open>GameState\<close>. Python's integers are \<^typ>\<open>int\<close>.
  A dictionary keyed by \<^verbatim>\<open>ResourceType\<close> is a map; a loop over its \<^verbatim>\<open>items()\<close> visits
  the kinds that are keys of the dictionary. Every loop of the engine over a dictionary
  treats each key on its own, so the model visits the keys in the order of the
  enumeration, which is also the insertion order of every dictionary that
  \<^verbatim>\<open>GameState.__init__\<close> builds with all four keys. Indexing a dictionary with a key it
  lacks raises \<^verbatim>\<open>KeyError\<close>; a method that can raise returns the error or its result
  together with the state as it is at that moment.

  Every \<^verbatim>\<open>Process\<close> and every dictionary is an object of its own: \<^verbatim>\<open>__init__\<close> shares none
  between two processes, and the model keeps each object's value in its owner's record.
\<close>

subsection \<open>Data\<close>

datatype ResourceType = CPU | MEMORIA | DISCO | IMPRESSORA

datatype ProcessState = WAITING | RUNNING | FINISHED | BLOCKED

datatype error = KeyError | ValueError

text \<open>The order of \<^verbatim>\<open>for rt in ResourceType\<close>.\<close>

definition resource_types :: "ResourceType list" where
  "resource_types = [CPU, MEMORIA, DISCO, IMPRESSORA]"

text \<open>\<^verbatim>\<open>d.get(k, 0)\<close>\<close>

definition get0 :: "('k \<rightharpoonup> int) \<Rightarrow> 'k \<Rightarrow> int" where
  "get0 d k = (case d k of None \<Rightarrow> 0 | Some v \<Rightarrow> v)"

record Resource =
  type' :: ResourceType
  total' :: int
  available :: int

record Process =
  id' :: string
  name :: string
  required_resources :: "ResourceType \<rightharpoonup> int"
  allocated_resources :: "ResourceType \<rightharpoonup> int"
  state :: ProcessState

text \<open>
  The two strings that \<^verbatim>\<open>allocate_resource\<close> and \<^verbatim>\<open>_finish_process\<close> append to the log,
  kept as the values their f-strings format: \<^verbatim>\<open>f"Alocado {amount} {resource_type.value}
  para {process.id}"\<close> and \<^verbatim>\<open>f"Processo {process.id} ({process.name}) finalizado!"\<close>.
\<close>

datatype LogEntry = Alocado int ResourceType string | Finalizado string string

record GameState =
  level :: int
  resources :: "ResourceType \<rightharpoonup> Resource"
  processes :: "Process list"
  game_log :: "LogEntry list"
  moves :: int
  max_moves :: int

subsection \<open>Resource\<close>

definition allocate :: "Resource \<Rightarrow> int \<Rightarrow> bool \<times> Resource" where
  "allocate r amount =
     (if available r \<ge> amount then (True, r\<lparr>available := available r - amount\<rparr>)
      else (False, r))"

definition release :: "Resource \<Rightarrow> int \<Rightarrow> Resource" where
  "release r amount = r\<lparr>available := min (total' r) (available r + amount)\<rparr>"

subsection \<open>Process\<close>

text \<open>\<^verbatim>\<open>{rt: 0 for rt in ResourceType}\<close>\<close>

definition zero_allocation :: "ResourceType \<rightharpoonup> int" where
  "zero_allocation = fold (\<lambda>rt d. d(rt \<mapsto> 0)) resource_types Map.empty"

text \<open>The constructor with \<^verbatim>\<open>__post_init__\<close>: an empty allocation becomes the zero one.\<close>

definition Process_init ::
  "string \<Rightarrow> string \<Rightarrow> (ResourceType \<rightharpoonup> int) \<Rightarrow> (ResourceType \<rightharpoonup> int) \<Rightarrow> Process" where
  "Process_init i n required allocated =
     \<lparr>id' = i, name = n, required_resources = required,
      allocated_resources =
        (if list_all (\<lambda>rt. allocated rt = None) resource_types then zero_allocation
         else allocated),
      state = WAITING\<rparr>"

definition is_satisfied :: "Process \<Rightarrow> bool" where
  "is_satisfied p =
     list_all
       (\<lambda>resource_type.
          case required_resources p resource_type of
            None \<Rightarrow> True
          | Some required \<Rightarrow> \<not> get0 (allocated_resources p) resource_type < required)
       resource_types"

definition can_finish :: "Process \<Rightarrow> (ResourceType \<rightharpoonup> int) \<Rightarrow> bool" where
  "can_finish p available_resources =
     list_all
       (\<lambda>resource_type.
          case required_resources p resource_type of
            None \<Rightarrow> True
          | Some required \<Rightarrow>
              (let still_needed = required - get0 (allocated_resources p) resource_type
               in \<not> still_needed > get0 available_resources resource_type))
       resource_types"

subsection \<open>GameState: deadlock detection\<close>

definition get_available_resources :: "GameState \<Rightarrow> (ResourceType \<rightharpoonup> int)" where
  "get_available_resources gs = (\<lambda>rt. map_option available (resources gs rt))"

text \<open>
  The inner loop of \<^verbatim>\<open>detect_deadlock\<close>: \<^verbatim>\<open>available[resource_type] += allocated\<close> for
  every item of the process's allocation; the scratch dictionary must have the key.
\<close>

fun add_allocated ::
  "ResourceType list \<Rightarrow> (ResourceType \<rightharpoonup> int) \<Rightarrow> (ResourceType \<rightharpoonup> int)
     \<Rightarrow> error + (ResourceType \<rightharpoonup> int)" where
  "add_allocated [] allocated avail = Inr avail"
| "add_allocated (rt # rts) allocated avail =
     (case allocated rt of
        None \<Rightarrow> add_allocated rts allocated avail
      | Some a \<Rightarrow>
          (case avail rt of
             None \<Rightarrow> Inl KeyError
           | Some v \<Rightarrow> add_allocated rts allocated (avail(rt \<mapsto> v + a))))"

text \<open>
  The body of the \<^verbatim>\<open>while changed and unfinished_processes\<close> loop, one pass: it sets
  \<^verbatim>\<open>changed = False\<close>, scans the copy of the list for the first process that can finish,
  gives its allocation to the scratch dictionary, removes it (\<^verbatim>\<open>list.remove\<close> drops the
  first element equal to it), sets \<^verbatim>\<open>changed = True\<close> and breaks. The pass works on the
  local dictionary and the local list only.
\<close>

definition detect_pass ::
  "(ResourceType \<rightharpoonup> int) \<Rightarrow> Process list
     \<Rightarrow> error + (ResourceType \<rightharpoonup> int) \<times> Process list \<times> bool" where
  "detect_pass avail unfinished =
     (case find (\<lambda>process. can_finish process avail) unfinished of
        None \<Rightarrow> Inr (avail, unfinished, False)
      | Some process \<Rightarrow>
          (case add_allocated resource_types (allocated_resources process) avail of
             Inl e \<Rightarrow> Inl e
           | Inr avail' \<Rightarrow> Inr (avail', remove1 process unfinished, True)))"

text \<open>The loop; its result is the list that is left.\<close>

function detect_loop ::
  "(ResourceType \<rightharpoonup> int) \<Rightarrow> Process list \<Rightarrow> bool \<Rightarrow> error + Process list" where
  "detect_loop avail unfinished changed =
     (if changed \<and> unfinished \<noteq> [] then
        (case detect_pass avail unfinished of
           Inl e \<Rightarrow> Inl e
         | Inr (avail', unfinished', changed') \<Rightarrow> detect_loop avail' unfinished' changed')
      else Inr unfinished)"
  by pat_completeness auto
termination
proof (relation "measure (\<lambda>(avail, unfinished, changed). 2 * length unfinished + (if changed then 1 else 0))")
  show "wf (measure (\<lambda>(avail, unfinished, changed). 2 * length unfinished + (if changed then 1 else (0::nat))))"
    by simp
next
  fix avail avail' :: "ResourceType \<rightharpoonup> int" and unfinished unfinished' :: "Process list"
    and changed changed' :: bool and x :: "(ResourceType \<rightharpoonup> int) \<times> Process list \<times> bool"
    and y :: "Process list \<times> bool"
  assume c: "changed \<and> unfinished \<noteq> []"
    and p: "detect_pass avail unfinished = Inr x" and x: "(avail', y) = x"
    and y: "(unfinished', changed') = y"
  show "((avail', unfinished', changed'), (avail, unfinished, changed))
      \<in> measure (\<lambda>(avail, unfinished, changed). 2 * length unfinished + (if changed then 1 else 0))"
  proof (cases "find (\<lambda>process. can_finish process avail) unfinished")
    case None
    with p x y have "unfinished' = unfinished" "changed' = False"
      by (auto simp: detect_pass_def)
    with c show ?thesis by simp
  next
    case (Some process)
    then have mem: "process \<in> set unfinished"
      by (auto simp: find_Some_iff)
    then have "0 < length unfinished"
      by (cases unfinished) auto
    with mem have less: "length (remove1 process unfinished) < length unfinished"
      by (simp add: length_remove1)
    from Some p x y have "unfinished' = remove1 process unfinished"
      by (auto simp: detect_pass_def split: sum.splits)
    with less show ?thesis by simp
  qed
qed

text \<open>
  \<^verbatim>\<open>detect_deadlock\<close> returns its result and the game state. \<^verbatim>\<open>get_available_resources\<close>
  builds a new dictionary and the list comprehension a new list, so no statement of the
  method assigns to \<^verbatim>\<open>self\<close>, to a \<^verbatim>\<open>Resource\<close> or to a \<^verbatim>\<open>Process\<close>.
\<close>

text \<open>\<^verbatim>\<open>[p for p in self.processes if p.state != ProcessState.FINISHED]\<close>\<close>

definition unfinished_of :: "GameState \<Rightarrow> Process list" where
  "unfinished_of gs = filter (\<lambda>p. state p \<noteq> FINISHED) (processes gs)"

definition detect_deadlock :: "GameState \<Rightarrow> (error + bool) \<times> GameState" where
  "detect_deadlock gs =
     (let avail = get_available_resources gs;
          unfinished_processes = unfinished_of gs
      in if unfinished_processes = [] then (Inr False, gs)
         else (case detect_loop avail unfinished_processes True of
                 Inl e \<Rightarrow> (Inl e, gs)
               | Inr left \<Rightarrow> (Inr (length left > 0), gs)))"

definition is_level_complete :: "GameState \<Rightarrow> bool \<times> GameState" where
  "is_level_complete gs = (list_all (\<lambda>p. state p = FINISHED) (processes gs), gs)"

subsection \<open>GameState: allocation\<close>

text \<open>\<^verbatim>\<open>next((p for p in self.processes if p.id == process_id), None)\<close>, as a position.\<close>

fun find_process :: "Process list \<Rightarrow> string \<Rightarrow> nat option" where
  "find_process [] process_id = None"
| "find_process (p # ps) process_id =
     (if id' p = process_id then Some 0 else map_option Suc (find_process ps process_id))"

text \<open>
  The loop of \<^verbatim>\<open>_finish_process\<close> over the items of the process's allocation: a positive
  amount is released to the pool's resource of that kind and set to zero.
\<close>

fun release_allocated ::
  "ResourceType list \<Rightarrow> (ResourceType \<rightharpoonup> Resource) \<Rightarrow> (ResourceType \<rightharpoonup> int)
     \<Rightarrow> (error + unit) \<times> (ResourceType \<rightharpoonup> Resource) \<times> (ResourceType \<rightharpoonup> int)" where
  "release_allocated [] res allocated = (Inr (), res, allocated)"
| "release_allocated (rt # rts) res allocated =
     (case allocated rt of
        None \<Rightarrow> release_allocated rts res allocated
      | Some a \<Rightarrow>
          if a > 0 then
            (case res rt of
               None \<Rightarrow> (Inl KeyError, res, allocated)
             | Some r \<Rightarrow> release_allocated rts (res(rt \<mapsto> release r a)) (allocated(rt \<mapsto> 0)))
          else release_allocated rts res allocated)"

text \<open>\<^verbatim>\<open>_finish_process\<close>, for the process at position \<open>i\<close> of the list.\<close>

definition finish_process :: "GameState \<Rightarrow> nat \<Rightarrow> (error + unit) \<times> GameState" where
  "finish_process gs i =
     (let process = (processes gs ! i)\<lparr>state := FINISHED\<rparr>
      in case release_allocated resource_types (resources gs) (allocated_resources process) of
           (Inl e, res, allocated) \<Rightarrow>
             (Inl e, gs\<lparr>resources := res,
                        processes := (processes gs)[i := process\<lparr>allocated_resources := allocated\<rparr>]\<rparr>)
         | (Inr u, res, allocated) \<Rightarrow>
             (Inr (), gs\<lparr>resources := res,
                        processes := (processes gs)[i := process\<lparr>allocated_resources := allocated\<rparr>],
                        game_log := game_log gs @ [Finalizado (id' process) (name process)]\<rparr>))"

definition allocate_resource ::
  "GameState \<Rightarrow> string \<Rightarrow> ResourceType \<Rightarrow> int \<Rightarrow> (error + bool) \<times> GameState" where
  "allocate_resource gs process_id resource_type amount =
     (case find_process (processes gs) process_id of
        None \<Rightarrow> (Inr False, gs)
      | Some i \<Rightarrow>
          let process = processes gs ! i in
          if state process = FINISHED then (Inr False, gs)
          else
            (case resources gs resource_type of
               None \<Rightarrow> (Inl KeyError, gs)
             | Some resource \<Rightarrow>
                 (case allocate resource amount of
                    (False, resource') \<Rightarrow> (Inr False, gs)
                  | (True, resource') \<Rightarrow>
                      let gs1 = gs\<lparr>resources := (resources gs)(resource_type \<mapsto> resource')\<rparr> in
                      (case allocated_resources process resource_type of
                         None \<Rightarrow> (Inl KeyError, gs1)
                       | Some a \<Rightarrow>
                           let process' = process\<lparr>allocated_resources :=
                                 (allocated_resources process)(resource_type \<mapsto> a + amount)\<rparr>;
                               gs2 = gs1\<lparr>processes := (processes gs1)[i := process'],
                                         moves := moves gs1 + 1\<rparr>
                           in (case (if is_satisfied process' then finish_process gs2 i
                                     else (Inr (), gs2)) of
                                 (Inl e, gs3) \<Rightarrow> (Inl e, gs3)
                               | (Inr u, gs3) \<Rightarrow>
                                   (Inr True,
                                    gs3\<lparr>game_log := game_log gs3 @
                                      [Alocado amount resource_type (id' process')]\<rparr>))))))"

definition is_game_over :: "GameState \<Rightarrow> (error + bool) \<times> GameState" where
  "is_game_over gs =
     (case detect_deadlock gs of
        (Inl e, gs') \<Rightarrow> (Inl e, gs')
      | (Inr d, gs') \<Rightarrow> (Inr (d \<or> moves gs' \<ge> max_moves gs'), gs'))"

subsection \<open>Level creation\<close>

text \<open>
  \<^verbatim>\<open>_initialize_resources\<close> computes \<^verbatim>\<open>multiplier = max(0.7, 1.2 - (self.level * 0.1))\<close> and
  \<^verbatim>\<open>int(base_amount * multiplier)\<close> in binary floating point. The embedding takes the
  outcome of that computation as a parameter: \<open>scaled base_amount\<close> is the value of
  \<^verbatim>\<open>int(base_amount * multiplier)\<close> at the level.
\<close>

definition base_amounts :: "(ResourceType \<times> int) list" where
  "base_amounts = [(CPU, 4), (MEMORIA, 4), (DISCO, 3), (IMPRESSORA, 2)]"

definition initialize_resources :: "(int \<Rightarrow> int) \<Rightarrow> (ResourceType \<rightharpoonup> Resource)" where
  "initialize_resources scaled =
     fold (\<lambda>(resource_type, base_amount) resources.
             let total = max 2 (scaled base_amount)
             in resources(resource_type \<mapsto>
                  \<lparr>type' = resource_type, total' = total, available = total\<rparr>))
          base_amounts Map.empty"

text \<open>
  The catalogue of templates, each a name and the items of its requirements in the order
  of the dictionary literal. The two accented letters are their UTF-8 bytes.
\<close>

type_synonym template = "string \<times> (ResourceType \<times> int) list"

definition process_templates :: "template list" where
  "process_templates =
     [(''Editor de Texto'', [(CPU, 1), (MEMORIA, 2)]),
      (''Compilador'', [(CPU, 2), (MEMORIA, 1), (DISCO, 1)]),
      (''Backup'', [(DISCO, 2), (MEMORIA, 1)]),
      (''Impress'' @ [CHR 0xC3, CHR 0xA3] @ ''o'', [(IMPRESSORA, 1), (MEMORIA, 1)]),
      (''Antiv'' @ [CHR 0xC3, CHR 0xAD] @ ''rus'', [(CPU, 1), (DISCO, 1), (MEMORIA, 1)]),
      (''Navegador'', [(CPU, 2), (MEMORIA, 3)]),
      (''Streaming'', [(CPU, 2), (MEMORIA, 2), (DISCO, 1)]),
      (''Banco de Dados'', [(CPU, 1), (MEMORIA, 2), (DISCO, 2)])]"

text \<open>\<^verbatim>\<open>str\<close> of a natural number, for \<^verbatim>\<open>f"P{i+1}"\<close>.\<close>

definition digit :: "nat \<Rightarrow> char" where
  "digit d = ''0123456789'' ! d"

fun str_nat :: "nat \<Rightarrow> string" where
  "str_nat n =
     (if n < 10 then [digit n]
      else str_nat (n div 10) @ [digit (n mod 10)])"

declare str_nat.simps [simp del]

text \<open>
  The random source. \<open>randint n\<close> is what the \<open>n\<close>-th call of \<^verbatim>\<open>random.randint(-1, 1)\<close>
  returns; the loops pass on the number of calls made so far. The call is made only
  when the level is above 2.
\<close>

fun vary_requirements ::
  "int \<Rightarrow> (nat \<Rightarrow> int) \<Rightarrow> nat \<Rightarrow> (ResourceType \<times> int) list \<Rightarrow> (ResourceType \<rightharpoonup> int)
     \<Rightarrow> (ResourceType \<rightharpoonup> int) \<times> nat" where
  "vary_requirements lvl randint n [] varied = (varied, n)"
| "vary_requirements lvl randint n ((resource_type, amount) # items) varied =
     (if lvl > 2 then
        vary_requirements lvl randint (Suc n) items
          (varied(resource_type \<mapsto> max 1 (amount + randint n)))
      else
        vary_requirements lvl randint n items
          (varied(resource_type \<mapsto> max 1 (amount + 0))))"

fun make_processes ::
  "int \<Rightarrow> (nat \<Rightarrow> int) \<Rightarrow> nat \<Rightarrow> nat \<Rightarrow> template list \<Rightarrow> Process list" where
  "make_processes lvl randint n i [] = []"
| "make_processes lvl randint n i ((nm, requirements) # selected) =
     (let (varied_requirements, n') = vary_requirements lvl randint n requirements Map.empty
      in Process_init (''P'' @ str_nat (i + 1)) nm varied_requirements zero_allocation
           # make_processes lvl randint n' (i + 1) selected)"

text \<open>
  \<^verbatim>\<open>random.sample(process_templates, k)\<close> raises \<^verbatim>\<open>ValueError\<close> for a negative \<open>k\<close> (it cannot
  be larger than the catalogue here). Otherwise it returns \<open>k\<close> templates taken at
  different positions of the catalogue, in some order: the parameter
  \<open>selected_templates\<close>, described by \<open>is_sample\<close>.
\<close>

definition process_count :: "int \<Rightarrow> int" where
  "process_count lvl = min (2 + lvl) 6"

definition sample_size :: "int \<Rightarrow> int" where
  "sample_size lvl = min (process_count lvl) (int (length process_templates))"

definition is_sample :: "int \<Rightarrow> template list \<Rightarrow> bool" where
  "is_sample lvl selected_templates =
     (int (length selected_templates) = sample_size lvl \<and>
      distinct selected_templates \<and>
      list_all (\<lambda>t. t \<in> set process_templates) selected_templates)"

definition generate_processes ::
  "int \<Rightarrow> template list \<Rightarrow> (nat \<Rightarrow> int) \<Rightarrow> error + Process list" where
  "generate_processes lvl selected_templates randint =
     (if sample_size lvl < 0 then Inl ValueError
      else Inr (make_processes lvl randint 0 0 selected_templates))"

definition GameState_init ::
  "int \<Rightarrow> (int \<Rightarrow> int) \<Rightarrow> template list \<Rightarrow> (nat \<Rightarrow> int) \<Rightarrow> error + GameState" where
  "GameState_init lvl scaled selected_templates randint =
     (case generate_processes lvl selected_templates randint of
        Inl e \<Rightarrow> Inl e
      | Inr ps \<Rightarrow>
          Inr \<lparr>level = lvl, resources = initialize_resources scaled, processes = ps,
               game_log = [], moves = 0, max_moves = 20\<rparr>)"

text \<open>
  A run of the engine: calls of \<^verbatim>\<open>allocate_resource\<close>, one after the other. A call that
  raises ends the run.
\<close>

type_synonym call = "string \<times> ResourceType \<times> int"

fun run :: "GameState \<Rightarrow> call list \<Rightarrow> error + GameState" where
  "run gs [] = Inr gs"
| "run gs ((process_id, resource_type, amount) # calls) =
     (case allocate_resource gs process_id resource_type amount of
        (Inl e, gs') \<Rightarrow> Inl e
      | (Inr ok, gs') \<Rightarrow> run gs' calls)"

subsection \<open>Queries in a row\<close>

text \<open>
  The two read-only methods, asked one after the other on the state the one before
  left: the answers, and the state after the last.
\<close>

datatype query = DetectDeadlock | IsLevelComplete

fun ask :: "GameState \<Rightarrow> query \<Rightarrow> (error + bool) \<times> GameState" where
  "ask gs DetectDeadlock = detect_deadlock gs"
| "ask gs IsLevelComplete = (case is_level_complete gs of (b, gs') \<Rightarrow> (Inr b, gs'))"

fun ask_all :: "GameState \<Rightarrow> query list \<Rightarrow> (error + bool) list \<times> GameState" where
  "ask_all gs [] = ([], gs)"
| "ask_all gs (q # qs) =
     (case ask gs q of
        (r, gs') \<Rightarrow> (case ask_all gs' qs of (rs, gs'') \<Rightarrow> (r # rs, gs'')))"

subsection \<open>Counting the work of the detection loop\<close>

text \<open>
  \<open>scan_checks\<close> is the number of calls of \<^verbatim>\<open>can_finish\<close> that one pass makes: the scan
  stops at the first process that can finish. \<open>detect_loop_cost\<close> is \<open>detect_loop\<close> with
  two counters, the passes made and the calls of \<^verbatim>\<open>can_finish\<close>; \<open>detect_deadlock_cost\<close>
  is \<open>detect_deadlock\<close> over it.
\<close>

definition scan_checks :: "(ResourceType \<rightharpoonup> int) \<Rightarrow> Process list \<Rightarrow> nat" where
  "scan_checks avail unfinished =
     (case find (\<lambda>process. can_finish process avail) unfinished of
        None \<Rightarrow> length unfinished
      | Some process \<Rightarrow> Suc (length (takeWhile (\<lambda>process. \<not> can_finish process avail) unfinished)))"

function detect_loop_cost ::
  "(ResourceType \<rightharpoonup> int) \<Rightarrow> Process list \<Rightarrow> bool \<Rightarrow> (error + Process list) \<times> nat \<times> nat" where
  "detect_loop_cost avail unfinished changed =
     (if changed \<and> unfinished \<noteq> [] then
        (case detect_pass avail unfinished of
           Inl e \<Rightarrow> (Inl e, 1, scan_checks avail unfinished)
         | Inr (avail', unfinished', changed') \<Rightarrow>
             (case detect_loop_cost avail' unfinished' changed' of
                (r, passes, checks) \<Rightarrow> (r, Suc passes, scan_checks avail unfinished + checks)))
      else (Inr unfinished, 0, 0))"
  by pat_completeness auto
termination
proof (relation "measure (\<lambda>(avail, unfinished, changed). 2 * length unfinished + (if changed then 1 else 0))")
  show "wf (measure (\<lambda>(avail, unfinished, changed). 2 * length unfinished + (if changed then 1 else (0::nat))))"
    by simp
next
  fix avail avail' :: "ResourceType \<rightharpoonup> int" and unfinished unfinished' :: "Process list"
    and changed changed' :: bool and x :: "(ResourceType \<rightharpoonup> int) \<times> Process list \<times> bool"
    and y :: "Process list \<times> bool"
  assume c: "changed \<and> unfinished \<noteq> []"
    and p: "detect_pass avail unfinished = Inr x" and x: "(avail', y) = x"
    and y: "(unfinished', changed') = y"
  show "((avail', unfinished', changed'), (avail, unfinished, changed))
      \<in> measure (\<lambda>(avail, unfinished, changed). 2 * length unfinished + (if changed then 1 else 0))"
  proof (cases "find (\<lambda>process. can_finish process avail) unfinished")
    case None
    with p x y have "unfinished' = unfinished" "changed' = False"
      by (auto simp: detect_pass_def)
    with c show ?thesis by simp
  next
    case (Some process)
    then have mem: "process \<in> set unfinished"
      by (auto simp: find_Some_iff)
    then have "0 < length unfinished"
      by (cases unfinished) auto
    with mem have less: "length (remove1 process unfinished) < length unfinished"
      by (simp add: length_remove1)
    from Some p x y have "unfinished' = remove1 process unfinished"
      by (auto simp: detect_pass_def split: sum.splits)
    with less show ?thesis by simp
  qed
qed

definition detect_deadlock_cost :: "GameState \<Rightarrow> (error + bool) \<times> nat \<times> nat" where
  "detect_deadlock_cost gs =
     (let avail = get_available_resources gs;
          unfinished_processes = unfinished_of gs
      in if unfinished_processes = [] then (Inr False, 0, 0)
         else (case detect_loop_cost avail unfinished_processes True of
                 (Inl e, passes, checks) \<Rightarrow> (Inl e, passes, checks)
               | (Inr left, passes, checks) \<Rightarrow> (Inr (length left > 0), passes, checks)))"

subsection \<open>A level to compute on\<close>

text \<open>
  Level 1 with the first three templates of the catalogue and the capacities 4, 4, 3
  and 2 (at level 1 the multiplier is 1.1); the state after P1 has taken the three
  disks and P2 the four units of memory; and the state after every process has been
  given what it requires.
\<close>

definition level1_scaled :: "int \<Rightarrow> int" where
  "level1_scaled base_amount = base_amount * 11 div 10"

definition level1_sample :: "template list" where
  "level1_sample = [process_templates ! 0, process_templates ! 1, process_templates ! 2]"

definition level1_state :: GameState where
  "level1_state =
     \<lparr>level = 1,
      resources =
        [CPU \<mapsto> \<lparr>type' = CPU, total' = 4, available = 4\<rparr>,
         MEMORIA \<mapsto> \<lparr>type' = MEMORIA, total' = 4, available = 4\<rparr>,
         DISCO \<mapsto> \<lparr>type' = DISCO, total' = 3, available = 3\<rparr>,
         IMPRESSORA \<mapsto> \<lparr>type' = IMPRESSORA, total' = 2, available = 2\<rparr>],
      processes =
        [\<lparr>id' = ''P1'', name = ''Editor de Texto'',
          required_resources = [CPU \<mapsto> 1, MEMORIA \<mapsto> 2],
          allocated_resources = zero_allocation, state = WAITING\<rparr>,
         \<lparr>id' = ''P2'', name = ''Compilador'',
          required_resources = [CPU \<mapsto> 2, MEMORIA \<mapsto> 1, DISCO \<mapsto> 1],
          allocated_resources = zero_allocation, state = WAITING\<rparr>,
         \<lparr>id' = ''P3'', name = ''Backup'',
          required_resources = [DISCO \<mapsto> 2, MEMORIA \<mapsto> 1],
          allocated_resources = zero_allocation, state = WAITING\<rparr>],
      game_log = [], moves = 0, max_moves = 20\<rparr>"

definition hogged_state :: GameState where
  "hogged_state =
     \<lparr>level = 1,
      resources =
        [CPU \<mapsto> \<lparr>type' = CPU, total' = 4, available = 4\<rparr>,
         MEMORIA \<mapsto> \<lparr>type' = MEMORIA, total' = 4, available = 0\<rparr>,
         DISCO \<mapsto> \<lparr>type' = DISCO, total' = 3, available = 0\<rparr>,
         IMPRESSORA \<mapsto> \<lparr>type' = IMPRESSORA, total' = 2, available = 2\<rparr>],
      processes =
        [\<lparr>id' = ''P1'', name = ''Editor de Texto'',
          required_resources = [CPU \<mapsto> 1, MEMORIA \<mapsto> 2],
          allocated_resources = [CPU \<mapsto> 0, MEMORIA \<mapsto> 0, DISCO \<mapsto> 3, IMPRESSORA \<mapsto> 0],
          state = WAITING\<rparr>,
         \<lparr>id' = ''P2'', name = ''Compilador'',
          required_resources = [CPU \<mapsto> 2, MEMORIA \<mapsto> 1, DISCO \<mapsto> 1],
          allocated_resources = [CPU \<mapsto> 0, MEMORIA \<mapsto> 4, DISCO \<mapsto> 0, IMPRESSORA \<mapsto> 0],
          state = WAITING\<rparr>,
         \<lparr>id' = ''P3'', name = ''Backup'',
          required_resources = [DISCO \<mapsto> 2, MEMORIA \<mapsto> 1],
          allocated_resources = [CPU \<mapsto> 0, MEMORIA \<mapsto> 0, DISCO \<mapsto> 0, IMPRESSORA \<mapsto> 0],
          state = WAITING\<rparr>],
      game_log = [Alocado 3 DISCO ''P1'', Alocado 4 MEMORIA ''P2''],
      moves = 2, max_moves = 20\<rparr>"

definition completed_state :: GameState where
  "completed_state =
     \<lparr>level = 1,
      resources =
        [CPU \<mapsto> \<lparr>type' = CPU, total' = 4, available = 4\<rparr>,
         MEMORIA \<mapsto> \<lparr>type' = MEMORIA, total' = 4, available = 4\<rparr>,
         DISCO \<mapsto> \<lparr>type' = DISCO, total' = 3, available = 3\<rparr>,
         IMPRESSORA \<mapsto> \<lparr>type' = IMPRESSORA, total' = 2, available = 2\<rparr>],
      processes =
        [\<lparr>id' = ''P1'', name = ''Editor de Texto'',
          required_resources = [CPU \<mapsto> 1, MEMORIA \<mapsto> 2],
          allocated_resources = [CPU \<mapsto> 0, MEMORIA \<mapsto> 0, DISCO \<mapsto> 0, IMPRESSORA \<mapsto> 0],
          state = FINISHED\<rparr>,
         \<lparr>id' = ''P2'', name = ''Compilador'',
          required_resources = [CPU \<mapsto> 2, MEMORIA \<mapsto> 1, DISCO \<mapsto> 1],
          allocated_resources = [CPU \<mapsto> 0, MEMORIA \<mapsto> 0, DISCO \<mapsto> 0, IMPRESSORA \<mapsto> 0],
          state = FINISHED\<rparr>,
         \<lparr>id' = ''P3'', name = ''Backup'',
          required_resources = [DISCO \<mapsto> 2, MEMORIA \<mapsto> 1],
          allocated_resources = [CPU \<mapsto> 0, MEMORIA \<mapsto> 0, DISCO \<mapsto> 0, IMPRESSORA \<mapsto> 0],
          state = FINISHED\<rparr>],
      game_log =
        [Alocado 1 CPU ''P1'', Finalizado ''P1'' ''Editor de Texto'', Alocado 2 MEMORIA ''P1'',
         Alocado 2 CPU ''P2'', Alocado 1 MEMORIA ''P2'', Finalizado ''P2'' ''Compilador'',
         Alocado 1 DISCO ''P2'', Alocado 2 DISCO ''P3'', Finalizado ''P3'' ''Backup'',
         Alocado 1 MEMORIA ''P3''],
      moves = 7, max_moves = 20\<rparr>"

subsection \<open>Well-formed states and closed forms\<close>

definition keys_complete :: "GameState \<Rightarrow> bool" where
  "keys_complete gs =
     (list_all (\<lambda>rt. resources gs rt \<noteq> None) resource_types \<and>
      list_all (\<lambda>p. list_all (\<lambda>rt. allocated_resources p rt \<noteq> None) resource_types)
        (processes gs))"

text \<open>What the loop of \<^verbatim>\<open>_finish_process\<close> leaves, when the pool has every key it needs.\<close>

definition released_pool ::
  "(ResourceType \<rightharpoonup> Resource) \<Rightarrow> (ResourceType \<rightharpoonup> int) \<Rightarrow> (ResourceType \<rightharpoonup> Resource)" where
  "released_pool res allocated =
     (\<lambda>rt. case allocated rt of
             None \<Rightarrow> res rt
           | Some a \<Rightarrow> if a > 0 then map_option (\<lambda>r. release r a) (res rt) else res rt)"

definition cleared :: "(ResourceType \<rightharpoonup> int) \<Rightarrow> (ResourceType \<rightharpoonup> int)" where
  "cleared allocated = (\<lambda>rt. case allocated rt of None \<Rightarrow> None | Some a \<Rightarrow> Some (if a > 0 then 0 else a))"

definition pool_complete :: "GameState \<Rightarrow> bool" where
  "pool_complete gs = list_all (\<lambda>rt. resources gs rt \<noteq> None) resource_types"

definition cpu_given_state :: GameState where
  "cpu_given_state =
     \<lparr>level = 1,
      resources =
        [CPU \<mapsto> \<lparr>type' = CPU, total' = 4, available = 3\<rparr>,
         MEMORIA \<mapsto> \<lparr>type' = MEMORIA, total' = 4, available = 4\<rparr>,
         DISCO \<mapsto> \<lparr>type' = DISCO, total' = 3, available = 3\<rparr>,
         IMPRESSORA \<mapsto> \<lparr>type' = IMPRESSORA, total' = 2, available = 2\<rparr>],
      processes =
        [\<lparr>id' = ''P1'', name = ''Editor de Texto'',
          required_resources = [CPU \<mapsto> 1, MEMORIA \<mapsto> 2],
          allocated_resources = [CPU \<mapsto> 1, MEMORIA \<mapsto> 0, DISCO \<mapsto> 0, IMPRESSORA \<mapsto> 0],
          state = WAITING\<rparr>,
         \<lparr>id' = ''P2'', name = ''Compilador'',
          required_resources = [CPU \<mapsto> 2, MEMORIA \<mapsto> 1, DISCO \<mapsto> 1],
          allocated_resources = [CPU \<mapsto> 0, MEMORIA \<mapsto> 0, DISCO \<mapsto> 0, IMPRESSORA \<mapsto> 0],
          state = WAITING\<rparr>,
         \<lparr>id' = ''P3'', name = ''Backup'',
          required_resources = [DISCO \<mapsto> 2, MEMORIA \<mapsto> 1],
          allocated_resources = [CPU \<mapsto> 0, MEMORIA \<mapsto> 0, DISCO \<mapsto> 0, IMPRESSORA \<mapsto> 0],
          state = WAITING\<rparr>],
      game_log = [Alocado 1 CPU ''P1''], moves = 1, max_moves = 20\<rparr>"

text \<open>Level 1 after P1 was given its CPU and then its two units of memory.\<close>

definition editor_done_state :: GameState where
  "editor_done_state =
     \<lparr>level = 1,
      resources =
        [CPU \<mapsto> \<lparr>type' = CPU, total' = 4, available = 4\<rparr>,
         MEMORIA \<mapsto> \<lparr>type' = MEMORIA, total' = 4, available = 4\<rparr>,
         DISCO \<mapsto> \<lparr>type' = DISCO, total' = 3, available = 3\<rparr>,
         IMPRESSORA \<mapsto> \<lparr>type' = IMPRESSORA, total' = 2, available = 2\<rparr>],
      processes =
        [\<lparr>id' = ''P1'', name = ''Editor de Texto'',
          required_resources = [CPU \<mapsto> 1, MEMORIA \<mapsto> 2],
          allocated_resources = [CPU \<mapsto> 0, MEMORIA \<mapsto> 0, DISCO \<mapsto> 0, IMPRESSORA \<mapsto> 0],
          state = FINISHED\<rparr>,
         \<lparr>id' = ''P2'', name = ''Compilador'',
          required_resources = [CPU \<mapsto> 2, MEMORIA \<mapsto> 1, DISCO \<mapsto> 1],
          allocated_resources = [CPU \<mapsto> 0, MEMORIA \<mapsto> 0, DISCO \<mapsto> 0, IMPRESSORA \<mapsto> 0],
          state = WAITING\<rparr>,
         \<lparr>id' = ''P3'', name = ''Backup'',
          required_resources = [DISCO \<mapsto> 2, MEMORIA \<mapsto> 1],
          allocated_resources = [CPU \<mapsto> 0, MEMORIA \<mapsto> 0, DISCO \<mapsto> 0, IMPRESSORA \<mapsto> 0],
          state = WAITING\<rparr>],
      game_log =
        [Alocado 1 CPU ''P1'', Finalizado ''P1'' ''Editor de Texto'', Alocado 2 MEMORIA ''P1''],
      moves = 2, max_moves = 20\<rparr>"

subsection \<open>Quantities and invariants\<close>

definition available_of :: "GameState \<Rightarrow> ResourceType \<Rightarrow> int" where
  "available_of gs rt = get0 (get_available_resources gs) rt"

definition total_of :: "GameState \<Rightarrow> ResourceType \<Rightarrow> int" where
  "total_of gs rt = (case resources gs rt of None \<Rightarrow> 0 | Some r \<Rightarrow> total' r)"

definition held :: "GameState \<Rightarrow> ResourceType \<Rightarrow> int" where
  "held gs rt = sum_list (map (\<lambda>p. get0 (allocated_resources p) rt) (unfinished_of gs))"

definition conserved :: "GameState \<Rightarrow> bool" where
  "conserved gs =
     list_all (\<lambda>rt. available_of gs rt + held gs rt = total_of gs rt) resource_types"

definition allocations_nonneg :: "GameState \<Rightarrow> bool" where
  "allocations_nonneg gs =
     list_all (\<lambda>p. list_all (\<lambda>rt. 0 \<le> get0 (allocated_resources p) rt) resource_types)
       (processes gs)"

definition share :: "ResourceType \<Rightarrow> Process \<Rightarrow> int" where
  "share rt p = (if state p \<noteq> FINISHED then get0 (allocated_resources p) rt else 0)"

definition finished_released :: "GameState \<Rightarrow> bool" where
  "finished_released gs =
     list_all
       (\<lambda>p. if state p = FINISHED
            then list_all (\<lambda>rt. allocated_resources p rt = Some 0) resource_types
            else True)
       (processes gs)"

definition sound :: "GameState \<Rightarrow> bool" where
  "sound gs = (keys_complete gs \<and> allocations_nonneg gs \<and> conserved gs \<and> finished_released gs)"

definition amounts_nonneg :: "call list \<Rightarrow> bool" where
  "amounts_nonneg calls = list_all (\<lambda>(process_id, resource_type, amount). 0 \<le> amount) calls"

text \<open>
  Level 1 after P2 was given -1 CPU and P1 its two units of memory and its CPU: P1 has
  finished, and the release of its CPU was cut at the total.
\<close>

definition clamped_state :: GameState where
  "clamped_state =
     \<lparr>level = 1,
      resources =
        [CPU \<mapsto> \<lparr>type' = CPU, total' = 4, available = 4\<rparr>,
         MEMORIA \<mapsto> \<lparr>type' = MEMORIA, total' = 4, available = 4\<rparr>,
         DISCO \<mapsto> \<lparr>type' = DISCO, total' = 3, available = 3\<rparr>,
         IMPRESSORA \<mapsto> \<lparr>type' = IMPRESSORA, total' = 2, available = 2\<rparr>],
      processes =
        [\<lparr>id' = ''P1'', name = ''Editor de Texto'',
          required_resources = [CPU \<mapsto> 1, MEMORIA \<mapsto> 2],
          allocated_resources = [CPU \<mapsto> 0, MEMORIA \<mapsto> 0, DISCO \<mapsto> 0, IMPRESSORA \<mapsto> 0],
          state = FINISHED\<rparr>,
         \<lparr>id' = ''P2'', name = ''Compilador'',
          required_resources = [CPU \<mapsto> 2, MEMORIA \<mapsto> 1, DISCO \<mapsto> 1],
          allocated_resources = [CPU \<mapsto> - 1, MEMORIA \<mapsto> 0, DISCO \<mapsto> 0, IMPRESSORA \<mapsto> 0],
          state = WAITING\<rparr>,
         \<lparr>id' = ''P3'', name = ''Backup'',
          required_resources = [DISCO \<mapsto> 2, MEMORIA \<mapsto> 1],
          allocated_resources = [CPU \<mapsto> 0, MEMORIA \<mapsto> 0, DISCO \<mapsto> 0, IMPRESSORA \<mapsto> 0],
          state = WAITING\<rparr>],
      game_log =
        [Alocado (- 1) CPU ''P2'', Alocado 2 MEMORIA ''P1'',
         Finalizado ''P1'' ''Editor de Texto'', Alocado 1 CPU ''P1''],
      moves = 3, max_moves = 20\<rparr>"

text \<open>
  Level 1 after P1 was given -1 disk, its CPU and its two units of memory: P1 has
  finished and still holds -1 disk.
\<close>

definition debt_state :: GameState where
  "debt_state =
     \<lparr>level = 1,
      resources =
        [CPU \<mapsto> \<lparr>type' = CPU, total' = 4, available = 4\<rparr>,
         MEMORIA \<mapsto> \<lparr>type' = MEMORIA, total' = 4, available = 4\<rparr>,
         DISCO \<mapsto> \<lparr>type' = DISCO, total' = 3, available = 4\<rparr>,
         IMPRESSORA \<mapsto> \<lparr>type' = IMPRESSORA, total' = 2, available = 2\<rparr>],
      processes =
        [\<lparr>id' = ''P1'', name = ''Editor de Texto'',
          required_resources = [CPU \<mapsto> 1, MEMORIA \<mapsto> 2],
          allocated_resources = [CPU \<mapsto> 0, MEMORIA \<mapsto> 0, DISCO \<mapsto> - 1, IMPRESSORA \<mapsto> 0],
          state = FINISHED\<rparr>,
         \<lparr>id' = ''P2'', name = ''Compilador'',
          required_resources = [CPU \<mapsto> 2, MEMORIA \<mapsto> 1, DISCO \<mapsto> 1],
          allocated_resources = [CPU \<mapsto> 0, MEMORIA \<mapsto> 0, DISCO \<mapsto> 0, IMPRESSORA \<mapsto> 0],
          state = WAITING\<rparr>,
         \<lparr>id' = ''P3'', name = ''Backup'',
          required_resources = [DISCO \<mapsto> 2, MEMORIA \<mapsto> 1],
          allocated_resources = [CPU \<mapsto> 0, MEMORIA \<mapsto> 0, DISCO \<mapsto> 0, IMPRESSORA \<mapsto> 0],
          state = WAITING\<rparr>],
      game_log =
        [Alocado (- 1) DISCO ''P1'', Alocado 1 CPU ''P1'',
         Finalizado ''P1'' ''Editor de Texto'', Alocado 2 MEMORIA ''P1''],
      moves = 3, max_moves = 20\<rparr>"

subsection \<open>Generated processes\<close>

text \<open>
  The contract of \<^verbatim>\<open>random.randint(-1, 1)\<close>: every call returns -1, 0 or 1.
\<close>

definition draws_in_range :: "(nat \<Rightarrow> int) \<Rightarrow> bool" where
  "draws_in_range randint = (\<forall>n. randint n = - 1 \<or> randint n = 0 \<or> randint n = 1)"

text \<open>
  What a template allows a generated process to require of a kind: nothing for a kind
  that the template does not name; the template's amount at levels 1 and 2; above level
  2 the amount with an offset of -1, 0 or 1, and 1 when that is lower.
\<close>

definition allowed_requirement ::
  "int \<Rightarrow> (ResourceType \<times> int) list \<Rightarrow> ResourceType \<Rightarrow> int option \<Rightarrow> bool" where
  "allowed_requirement lvl requirements rt required =
     (case map_of requirements rt of
        None \<Rightarrow> required = None
      | Some amount \<Rightarrow>
          if lvl > 2
          then required = Some (max 1 (amount - 1)) \<or> required = Some (max 1 amount) \<or>
               required = Some (max 1 (amount + 1))
          else required = Some amount)"

definition template_ok :: "template \<Rightarrow> bool" where
  "template_ok t =
     (distinct (map fst (snd t)) \<and> list_all (\<lambda>(rt, amount). 1 \<le> amount) (snd t) \<and> snd t \<noteq> [])"

definition level3_sample :: "template list" where
  "level3_sample = take 5 process_templates"

text \<open>
  What holds in every state that calls with any amounts reach: the dictionaries have
  every key, no \<^verbatim>\<open>available\<close> and no \<^verbatim>\<open>total\<close> is negative, and a process that is not
  finished is not satisfied.
\<close>

definition steady :: "GameState \<Rightarrow> bool" where
  "steady gs =
     (keys_complete gs \<and>
      list_all (\<lambda>rt. 0 \<le> available_of gs rt \<and> 0 \<le> total_of gs rt) resource_types \<and>
      list_all (\<lambda>p. if state p = FINISHED then True else \<not> is_satisfied p) (processes gs))"

subsection \<open>The allocation bound\<close>

text \<open>
  The bound of C3, with \<^verbatim>\<open>required.get(kind, 0)\<close> for a kind that the process does not
  require: no process is allocated more of a kind than it requires.
\<close>

definition within_requirements :: "GameState \<Rightarrow> bool" where
  "within_requirements gs =
     list_all
       (\<lambda>p. list_all
          (\<lambda>rt. get0 (allocated_resources p) rt \<le> get0 (required_resources p) rt)
          resource_types)
       (processes gs)"

text \<open>
  A call asks for no more than the process still needs: the amount is at most
  \<^verbatim>\<open>required[kind] - allocated[kind]\<close> of the process it names, when there is one. The
  interface's button calls with amount 1 and only while \<^verbatim>\<open>allocated < required\<close>.
\<close>

definition call_within_need :: "GameState \<Rightarrow> call \<Rightarrow> bool" where
  "call_within_need gs c =
     (case c of (process_id, resource_type, amount) \<Rightarrow>
        (case find_process (processes gs) process_id of
           None \<Rightarrow> True
         | Some i \<Rightarrow>
             amount \<le> get0 (required_resources (processes gs ! i)) resource_type
                       - get0 (allocated_resources (processes gs ! i)) resource_type))"

fun calls_within_need :: "GameState \<Rightarrow> call list \<Rightarrow> bool" where
  "calls_within_need gs [] = True"
| "calls_within_need gs ((process_id, resource_type, amount) # calls) =
     (call_within_need gs (process_id, resource_type, amount) \<and>
      (case allocate_resource gs process_id resource_type amount of
         (Inl e, gs') \<Rightarrow> True
       | (Inr ok, gs') \<Rightarrow> calls_within_need gs' calls))"

text \<open>Level 1 after P1, which requires one CPU, was given two.\<close>

definition over_state :: GameState where
  "over_state =
     \<lparr>level = 1,
      resources =
        [CPU \<mapsto> \<lparr>type' = CPU, total' = 4, available = 2\<rparr>,
         MEMORIA \<mapsto> \<lparr>type' = MEMORIA, total' = 4, available = 4\<rparr>,
         DISCO \<mapsto> \<lparr>type' = DISCO, total' = 3, available = 3\<rparr>,
         IMPRESSORA \<mapsto> \<lparr>type' = IMPRESSORA, total' = 2, available = 2\<rparr>],
      processes =
        [\<lparr>id' = ''P1'', name = ''Editor de Texto'',
          required_resources = [CPU \<mapsto> 1, MEMORIA \<mapsto> 2],
          allocated_resources = [CPU \<mapsto> 2, MEMORIA \<mapsto> 0, DISCO \<mapsto> 0, IMPRESSORA \<mapsto> 0],
          state = WAITING\<rparr>,
         \<lparr>id' = ''P2'', name = ''Compilador'',
          required_resources = [CPU \<mapsto> 2, MEMORIA \<mapsto> 1, DISCO \<mapsto> 1],
          allocated_resources = [CPU \<mapsto> 0, MEMORIA \<mapsto> 0, DISCO \<mapsto> 0, IMPRESSORA \<mapsto> 0],
          state = WAITING\<rparr>,
         \<lparr>id' = ''P3'', name = ''Backup'',
          required_resources = [DISCO \<mapsto> 2, MEMORIA \<mapsto> 1],
          allocated_resources = [CPU \<mapsto> 0, MEMORIA \<mapsto> 0, DISCO \<mapsto> 0, IMPRESSORA \<mapsto> 0],
          state = WAITING\<rparr>],
      game_log = [Alocado 2 CPU ''P1''], moves = 1, max_moves = 20\<rparr>"

subsection \<open>Safe orders\<close>

text \<open>
  The safe orders of the specification. A process that finishes returns its full
  allocation to the working pool; \<open>finishes_in_order\<close> lets the processes of a list finish
  one after the other; a state is safe when some order of its unfinished processes does.
\<close>

definition give_back :: "Process \<Rightarrow> (ResourceType \<rightharpoonup> int) \<Rightarrow> (ResourceType \<rightharpoonup> int)" where
  "give_back p avail =
     (\<lambda>rt. map_option (\<lambda>v. v + get0 (allocated_resources p) rt) (avail rt))"

fun finishes_in_order :: "(ResourceType \<rightharpoonup> int) \<Rightarrow> Process list \<Rightarrow> bool" where
  "finishes_in_order avail [] = True"
| "finishes_in_order avail (p # ps) =
     (can_finish p avail \<and> finishes_in_order (give_back p avail) ps)"

definition safe :: "GameState \<Rightarrow> bool" where
  "safe gs =
     (\<exists>order. mset order = mset (unfinished_of gs) \<and>
              finishes_in_order (get_available_resources gs) order)"

definition unfinished_nonneg :: "GameState \<Rightarrow> bool" where
  "unfinished_nonneg gs =
     list_all (\<lambda>p. list_all (\<lambda>rt. 0 \<le> get0 (allocated_resources p) rt) resource_types)
       (unfinished_of gs)"

text \<open>
  Level 1 with the templates 0, 3 and 5 of the catalogue, and the state after P1 was
  given -1 printer and two units of memory, P2 two units of memory and P3 two printers.
\<close>

definition other_sample :: "template list" where
  "other_sample = [process_templates ! 0, process_templates ! 3, process_templates ! 5]"

definition other_state :: GameState where
  "other_state =
     \<lparr>level = 1,
      resources =
        [CPU \<mapsto> \<lparr>type' = CPU, total' = 4, available = 4\<rparr>,
         MEMORIA \<mapsto> \<lparr>type' = MEMORIA, total' = 4, available = 4\<rparr>,
         DISCO \<mapsto> \<lparr>type' = DISCO, total' = 3, available = 3\<rparr>,
         IMPRESSORA \<mapsto> \<lparr>type' = IMPRESSORA, total' = 2, available = 2\<rparr>],
      processes =
        [\<lparr>id' = ''P1'', name = ''Editor de Texto'',
          required_resources = [CPU \<mapsto> 1, MEMORIA \<mapsto> 2],
          allocated_resources = zero_allocation, state = WAITING\<rparr>,
         \<lparr>id' = ''P2'', name = ''Impress'' @ [CHR 0xC3, CHR 0xA3] @ ''o'',
          required_resources = [IMPRESSORA \<mapsto> 1, MEMORIA \<mapsto> 1],
          allocated_resources = zero_allocation, state = WAITING\<rparr>,
         \<lparr>id' = ''P3'', name = ''Navegador'',
          required_resources = [CPU \<mapsto> 2, MEMORIA \<mapsto> 3],
          allocated_resources = zero_allocation, state = WAITING\<rparr>],
      game_log = [], moves = 0, max_moves = 20\<rparr>"

definition tangled_editor :: Process where
  "tangled_editor =
     \<lparr>id' = ''P1'', name = ''Editor de Texto'',
      required_resources = [CPU \<mapsto> 1, MEMORIA \<mapsto> 2],
      allocated_resources = [CPU \<mapsto> 0, MEMORIA \<mapsto> 2, DISCO \<mapsto> 0, IMPRESSORA \<mapsto> - 1],
      state = WAITING\<rparr>"

definition tangled_printing :: Process where
  "tangled_printing =
     \<lparr>id' = ''P2'', name = ''Impress'' @ [CHR 0xC3, CHR 0xA3] @ ''o'',
      required_resources = [IMPRESSORA \<mapsto> 1, MEMORIA \<mapsto> 1],
      allocated_resources = [CPU \<mapsto> 0, MEMORIA \<mapsto> 2, DISCO \<mapsto> 0, IMPRESSORA \<mapsto> 0],
      state = WAITING\<rparr>"

definition tangled_browser :: Process where
  "tangled_browser =
     \<lparr>id' = ''P3'', name = ''Navegador'',
      required_resources = [CPU \<mapsto> 2, MEMORIA \<mapsto> 3],
      allocated_resources = [CPU \<mapsto> 0, MEMORIA \<mapsto> 0, DISCO \<mapsto> 0, IMPRESSORA \<mapsto> 2],
      state = WAITING\<rparr>"

definition tangled_state :: GameState where
  "tangled_state =
     \<lparr>level = 1,
      resources =
        [CPU \<mapsto> \<lparr>type' = CPU, total' = 4, available = 4\<rparr>,
         MEMORIA \<mapsto> \<lparr>type' = MEMORIA, total' = 4, available = 0\<rparr>,
         DISCO \<mapsto> \<lparr>type' = DISCO, total' = 3, available = 3\<rparr>,
         IMPRESSORA \<mapsto> \<lparr>type' = IMPRESSORA, total' = 2, available = 1\<rparr>],
      processes = [tangled_editor, tangled_printing, tangled_browser],
      game_log =
        [Alocado (- 1) IMPRESSORA ''P1'', Alocado 2 MEMORIA ''P1'', Alocado 2 MEMORIA ''P2'',
         Alocado 2 IMPRESSORA ''P3''],
      moves = 4, max_moves = 20\<rparr>"

section \<open>Properties\<close>

subsection \<open>The level to compute on\<close>

lemma is_sample_level1: "is_sample 1 level1_sample"
  by (simp add: is_sample_def level1_sample_def process_templates_def sample_size_def process_count_def)

lemma level1_created: "GameState_init 1 level1_scaled level1_sample (\<lambda>n. 0) = Inr level1_state"
  by (simp add: GameState_init_def generate_processes_def sample_size_def process_count_def process_templates_def level1_sample_def Process_init_def  initialize_resources_def base_amounts_def level1_scaled_def resource_types_def level1_state_def digit_def zero_allocation_def
      str_nat.simps)

lemma hogged_reached: "run level1_state [(''P1'', DISCO, 3), (''P2'', MEMORIA, 4)] = Inr hogged_state"
  by (simp add: level1_state_def hogged_state_def allocate_resource_def allocate_def is_satisfied_def resource_types_def get0_def zero_allocation_def fun_eq_iff)

lemma hogged_deadlock: "detect_deadlock hogged_state = (Inr True, hogged_state)"
  by (simp add: hogged_state_def detect_deadlock_def unfinished_of_def get_available_resources_def detect_loop.simps detect_pass_def can_finish_def resource_types_def get0_def)

lemma level1_no_deadlock: "detect_deadlock level1_state = (Inr False, level1_state)"
  by (simp add: level1_state_def detect_deadlock_def unfinished_of_def get_available_resources_def detect_loop.simps detect_pass_def can_finish_def resource_types_def get0_def zero_allocation_def)

lemma completed_reached: "run level1_state [(''P1'', CPU, 1), (''P1'', MEMORIA, 2), (''P2'', CPU, 2), (''P2'', MEMORIA, 1),
   (''P2'', DISCO, 1), (''P3'', DISCO, 2), (''P3'', MEMORIA, 1)] = Inr completed_state"
  by (simp add: level1_state_def completed_state_def allocate_resource_def allocate_def is_satisfied_def resource_types_def get0_def zero_allocation_def finish_process_def release_def fun_eq_iff)

subsection \<open>The queries change nothing\<close>

lemma detect_deadlock_state: "snd (detect_deadlock gs) = gs"
  by (simp add: detect_deadlock_def Let_def split: sum.splits)

lemma is_level_complete_state: "snd (is_level_complete gs) = gs"
  by (simp add: is_level_complete_def)

lemma ask_state: "snd (ask gs q) = gs"
  by (cases q) (simp_all add: detect_deadlock_state is_level_complete_def)

text \<open>
  C6. \<^verbatim>\<open>detect_deadlock()\<close> and \<^verbatim>\<open>is_level_complete()\<close> have no side effect and are
  idempotent: whatever queries are asked in a row, in any order and any number of times,
  the state after the last is the state before the first (pool, every process, move
  counter and log), and every answer is the answer the same query gives when it is asked
  first. A query that raises leaves the state unchanged as well.
\<close>

theorem queries_leave_state:
  "ask_all gs qs = (map (\<lambda>q. fst (ask gs q)) qs, gs)"
proof (induction qs)
  case Nil
  show ?case by simp
next
  case (Cons q qs)
  obtain r where r: "ask gs q = (r, gs)"
    using ask_state [of gs q] by (cases "ask gs q") simp
  with Cons show ?case by simp
qed

theorem queries_leave_state_witness:
  "ask_all hogged_state [DetectDeadlock, IsLevelComplete, DetectDeadlock, DetectDeadlock] =
     ([Inr True, Inr False, Inr True, Inr True], hogged_state)"
  using queries_leave_state [of hogged_state "[DetectDeadlock, IsLevelComplete, DetectDeadlock, DetectDeadlock]"]
  by (simp add: hogged_deadlock is_level_complete_def) (simp add: hogged_state_def)

subsection \<open>The detection loop ends\<close>

declare detect_loop.simps [simp del]
declare detect_loop_cost.simps [simp del]

lemma takeWhile_shorter: "\<exists>x\<in>set xs. \<not> P x \<Longrightarrow> length (takeWhile P xs) < length xs"
  by (induction xs) auto

lemma detect_pass_cases:
  assumes "detect_pass avail unfinished = Inr (avail', unfinished', changed')"
  shows "(changed' \<and> Suc (length unfinished') = length unfinished) \<or>
         (\<not> changed' \<and> unfinished' = unfinished \<and> avail' = avail)"
proof (cases "find (\<lambda>process. can_finish process avail) unfinished")
  case None
  with assms show ?thesis by (simp add: detect_pass_def)
next
  case (Some process)
  then have mem: "process \<in> set unfinished"
    by (auto simp: find_Some_iff)
  then have "0 < length unfinished"
    by (cases unfinished) auto
  with mem have "Suc (length (remove1 process unfinished)) = length unfinished"
    by (simp add: length_remove1)
  with Some assms show ?thesis
    by (auto simp: detect_pass_def split: sum.splits)
qed

lemma scan_checks_le: "scan_checks avail unfinished \<le> length unfinished"
proof (cases "find (\<lambda>process. can_finish process avail) unfinished")
  case None
  then show ?thesis by (simp add: scan_checks_def)
next
  case (Some process)
  then have "\<exists>x\<in>set unfinished. \<not> \<not> can_finish x avail"
    by (auto simp: find_Some_iff)
  then have "length (takeWhile (\<lambda>process. \<not> can_finish process avail) unfinished) < length unfinished"
    by (rule takeWhile_shorter)
  with Some show ?thesis by (simp add: scan_checks_def)
qed

lemma detect_loop_cost_result: "fst (detect_loop_cost avail unfinished changed) = detect_loop avail unfinished changed"
proof (induction avail unfinished changed rule: detect_loop.induct)
  case (1 avail unfinished changed)
  show ?case
  proof (cases "changed \<and> unfinished \<noteq> []")
    case False
    then show ?thesis
      by (subst detect_loop_cost.simps, subst detect_loop.simps) auto
  next
    case True
    show ?thesis
    proof (cases "detect_pass avail unfinished")
      case (Inl e)
      with True show ?thesis
        by (subst detect_loop_cost.simps, subst detect_loop.simps) simp
    next
      case (Inr x)
      obtain avail' unfinished' changed' where x: "x = (avail', unfinished', changed')"
        by (cases x) auto
      from "1.IH" [OF True Inr] x
      have "fst (detect_loop_cost avail' unfinished' changed') = detect_loop avail' unfinished' changed'"
        by simp
      with True Inr x show ?thesis
        by (subst detect_loop_cost.simps, subst detect_loop.simps) (auto split: prod.splits)
    qed
  qed
qed

lemma detect_loop_cost_bounds:
  "fst (snd (detect_loop_cost avail unfinished changed)) \<le> length unfinished \<and>
   2 * snd (snd (detect_loop_cost avail unfinished changed)) \<le> length unfinished * Suc (length unfinished)"
proof (induction avail unfinished changed rule: detect_loop_cost.induct)
  case (1 avail unfinished changed)
  show ?case
  proof (cases "changed \<and> unfinished \<noteq> []")
    case False
    then show ?thesis
      by (subst (1 2) detect_loop_cost.simps) auto
  next
    case True
    then have pos: "0 < length unfinished" by simp
    show ?thesis
    proof (cases "detect_pass avail unfinished")
      case (Inl e)
      have "2 * scan_checks avail unfinished \<le> length unfinished * Suc (length unfinished)"
        using scan_checks_le [of avail unfinished] pos
        by (cases "length unfinished") auto
      with True Inl pos show ?thesis
        by (subst (1 2) detect_loop_cost.simps) (simp add: Suc_le_eq)
    next
      case (Inr x)
      obtain avail' unfinished' changed' where x: "x = (avail', unfinished', changed')"
        by (cases x) auto
      obtain r passes checks where rc: "detect_loop_cost avail' unfinished' changed' = (r, passes, checks)"
        by (cases "detect_loop_cost avail' unfinished' changed'") auto
      from "1.IH" [OF True Inr] x rc
      have ih: "passes \<le> length unfinished'" "2 * checks \<le> length unfinished' * Suc (length unfinished')"
        by simp_all
      have sc: "scan_checks avail unfinished \<le> length unfinished"
        by (rule scan_checks_le)
      from detect_pass_cases [OF Inr [unfolded x]]
      consider (rem) "changed'" "Suc (length unfinished') = length unfinished"
        | (stop) "\<not> changed'" "unfinished' = unfinished" by auto
      then show ?thesis
      proof cases
        case rem
        then have n: "length unfinished = Suc (length unfinished')" by simp
        have "2 * (scan_checks avail unfinished + checks) \<le> 2 * length unfinished + length unfinished' * Suc (length unfinished')"
          using sc ih by simp
        also have "\<dots> = length unfinished * Suc (length unfinished)"
          by (simp add: n)
        finally have "2 * (scan_checks avail unfinished + checks) \<le> length unfinished * Suc (length unfinished)" .
        with True Inr x rc ih n show ?thesis
          by (subst (1 2) detect_loop_cost.simps) simp
      next
        case stop
        with rc have "passes = 0" "checks = 0"
          by (subst (asm) detect_loop_cost.simps, simp)+
        moreover have "2 * scan_checks avail unfinished \<le> length unfinished * Suc (length unfinished)"
          using sc pos by (cases "length unfinished") auto
        ultimately show ?thesis using True Inr x rc pos
          by (subst (1 2) detect_loop_cost.simps) (simp add: Suc_le_eq)
      qed
    qed
  qed
qed

lemma detect_deadlock_cost_result: "fst (detect_deadlock_cost gs) = fst (detect_deadlock gs)"
proof -
  obtain r passes checks
    where c: "detect_loop_cost (get_available_resources gs) (unfinished_of gs) True = (r, passes, checks)"
    by (cases "detect_loop_cost (get_available_resources gs) (unfinished_of gs) True") auto
  then have "detect_loop (get_available_resources gs) (unfinished_of gs) True = r"
    using detect_loop_cost_result [of "get_available_resources gs" "unfinished_of gs" True] by simp
  with c show ?thesis
    by (auto simp: detect_deadlock_cost_def detect_deadlock_def Let_def split: sum.splits)
qed

lemma detect_deadlock_cost_bounds:
  "fst (snd (detect_deadlock_cost gs)) \<le> length (unfinished_of gs) \<and>
   2 * snd (snd (detect_deadlock_cost gs)) \<le> length (unfinished_of gs) * Suc (length (unfinished_of gs))"
proof -
  obtain r passes checks
    where c: "detect_loop_cost (get_available_resources gs) (unfinished_of gs) True = (r, passes, checks)"
    by (cases "detect_loop_cost (get_available_resources gs) (unfinished_of gs) True") auto
  with detect_loop_cost_bounds [of "get_available_resources gs" "unfinished_of gs" True]
  show ?thesis
    by (auto simp: detect_deadlock_cost_def Let_def split: sum.splits)
qed

lemma unfinished_of_le: "length (unfinished_of gs) \<le> length (processes gs)"
  by (simp add: unfinished_of_def)

lemma half_square: "2 * c \<le> n * Suc n \<Longrightarrow> m \<ge> n \<Longrightarrow> c \<le> m * (m::nat)"
proof -
  assume a: "2 * c \<le> n * Suc n" and b: "m \<ge> n"
  have "n \<le> n * n" by (cases n) auto
  then have "n * Suc n \<le> 2 * (n * n)" by simp
  with a have "c \<le> n * n" by linarith
  also have "\<dots> \<le> m * m" using b by (simp add: mult_le_mono)
  finally show ?thesis .
qed

text \<open>
  C7. \<^verbatim>\<open>detect_deadlock()\<close> ends on every state: \<open>detect_loop\<close> is a total function, by the
  measure of its definition (twice the length of the list, plus one while \<^verbatim>\<open>changed\<close>
  holds). The loop with counters returns what the loop returns; it makes at most as many
  passes as there are unfinished processes, plus one, and at most the square of the
  number of processes calls of \<^verbatim>\<open>can_finish\<close>. A pass that does not raise removes a process
  from the list or leaves \<^verbatim>\<open>changed\<close> false. With no unfinished process the method returns
  \<^verbatim>\<open>False\<close> without a pass.
\<close>

theorem detect_deadlock_terminates:
  "fst (detect_deadlock_cost gs) = fst (detect_deadlock gs) \<and>
   fst (snd (detect_deadlock_cost gs)) \<le> length (unfinished_of gs) + 1 \<and>
   snd (snd (detect_deadlock_cost gs)) \<le> length (processes gs) * length (processes gs) \<and>
   (detect_pass avail unfinished = Inr (avail', unfinished', changed') \<longrightarrow>
      length unfinished' < length unfinished \<or> \<not> changed') \<and>
   (unfinished_of gs0 = [] \<longrightarrow> detect_deadlock_cost gs0 = (Inr False, 0, 0))"
proof (intro conjI impI)
  show "fst (detect_deadlock_cost gs) = fst (detect_deadlock gs)"
    by (rule detect_deadlock_cost_result)
  show "fst (snd (detect_deadlock_cost gs)) \<le> length (unfinished_of gs) + 1"
    using detect_deadlock_cost_bounds [of gs] by simp
  show "snd (snd (detect_deadlock_cost gs)) \<le> length (processes gs) * length (processes gs)"
    using detect_deadlock_cost_bounds [of gs] unfinished_of_le [of gs]
    by (blast intro: half_square)
  show "length unfinished' < length unfinished \<or> \<not> changed'"
    if "detect_pass avail unfinished = Inr (avail', unfinished', changed')"
    using detect_pass_cases [OF that] by auto
  show "detect_deadlock_cost gs0 = (Inr False, 0, 0)" if "unfinished_of gs0 = []"
    using that by (simp add: detect_deadlock_cost_def)
qed

lemma level1_pass:
  "detect_pass (get_available_resources level1_state) (unfinished_of level1_state) =
     Inr (get_available_resources level1_state, tl (processes level1_state), True)"
  by (simp add: level1_state_def get_available_resources_def unfinished_of_def detect_pass_def
      can_finish_def resource_types_def get0_def zero_allocation_def fun_eq_iff)

lemma level1_cost: "detect_deadlock_cost level1_state = (Inr False, 3, 3)"
  by (simp add: level1_state_def detect_deadlock_cost_def get_available_resources_def unfinished_of_def
      detect_loop_cost.simps detect_pass_def scan_checks_def
      can_finish_def resource_types_def get0_def zero_allocation_def)

theorem detect_deadlock_terminates_witness:
  "detect_deadlock_cost level1_state = (Inr False, 3, 3) \<and>
   detect_deadlock level1_state = (Inr False, level1_state) \<and>
   length (unfinished_of level1_state) = 3 \<and>
   detect_pass (get_available_resources level1_state) (unfinished_of level1_state) =
     Inr (get_available_resources level1_state, tl (processes level1_state), True) \<and>
   length (tl (processes level1_state)) < length (unfinished_of level1_state) \<and>
   unfinished_of completed_state = [] \<and>
   detect_deadlock_cost completed_state = (Inr False, 0, 0)"
proof -
  have e: "unfinished_of completed_state = []"
    by (simp add: unfinished_of_def completed_state_def)
  have n: "length (unfinished_of level1_state) = 3"
    by (simp add: unfinished_of_def level1_state_def)
  from detect_deadlock_terminates [of level1_state "get_available_resources level1_state"
      "unfinished_of level1_state" "get_available_resources level1_state"
      "tl (processes level1_state)" True completed_state]
  show ?thesis
    using level1_pass level1_cost e n level1_no_deadlock by simp
qed

subsection \<open>One call of allocate_resource\<close>

lemma resource_types_all: "set resource_types = UNIV"
proof -
  have "rt \<in> set resource_types" for rt
    by (cases rt) (simp_all add: resource_types_def)
  then show ?thesis by auto
qed

lemma distinct_resource_types: "distinct resource_types"
  by (simp add: resource_types_def)

lemma find_process_Some:
  "find_process ps process_id = Some i \<Longrightarrow> i < length ps \<and> id' (ps ! i) = process_id"
proof (induction ps arbitrary: i)
  case Nil
  then show ?case by simp
next
  case (Cons p ps)
  then show ?case
    by (cases "id' p = process_id") auto
qed

lemma release_allocated_on:
  assumes "distinct rts" and "\<And>rt. rt \<in> set rts \<Longrightarrow> res rt \<noteq> None"
  shows "release_allocated rts res allocated =
           (Inr (),
            (\<lambda>rt. if rt \<in> set rts then released_pool res allocated rt else res rt),
            (\<lambda>rt. if rt \<in> set rts then cleared allocated rt else allocated rt))"
  using assms
proof (induction rts arbitrary: res allocated)
  case Nil
  show ?case by simp
next
  case (Cons rt rts)
  show ?case
  proof (cases "allocated rt")
    case None
    have "release_allocated rts res allocated =
           (Inr (),
            (\<lambda>rt. if rt \<in> set rts then released_pool res allocated rt else res rt),
            (\<lambda>rt. if rt \<in> set rts then cleared allocated rt else allocated rt))"
      using Cons.prems by (intro Cons.IH) auto
    with None show ?thesis
      by (auto simp: fun_eq_iff released_pool_def cleared_def split: option.splits)
  next
    case (Some a)
    show ?thesis
    proof (cases "a > 0")
      case False
      have "release_allocated rts res allocated =
           (Inr (),
            (\<lambda>rt. if rt \<in> set rts then released_pool res allocated rt else res rt),
            (\<lambda>rt. if rt \<in> set rts then cleared allocated rt else allocated rt))"
        using Cons.prems by (intro Cons.IH) auto
      with Some False show ?thesis
        by (auto simp: fun_eq_iff released_pool_def cleared_def split: option.splits)
    next
      case True
      from Cons.prems obtain r where r: "res rt = Some r" by auto
      have "release_allocated rts (res(rt \<mapsto> release r a)) (allocated(rt \<mapsto> 0)) =
           (Inr (),
            (\<lambda>rt'. if rt' \<in> set rts then released_pool (res(rt \<mapsto> release r a)) (allocated(rt \<mapsto> 0)) rt'
                    else (res(rt \<mapsto> release r a)) rt'),
            (\<lambda>rt'. if rt' \<in> set rts then cleared (allocated(rt \<mapsto> 0)) rt' else (allocated(rt \<mapsto> 0)) rt'))"
        using Cons.prems by (intro Cons.IH) auto
      with Some True r Cons.prems(1) show ?thesis
        by (auto simp: fun_eq_iff released_pool_def cleared_def split: option.splits)
    qed
  qed
qed

lemma release_allocated_complete:
  assumes "\<And>rt. res rt \<noteq> None"
  shows "release_allocated resource_types res allocated =
           (Inr (), released_pool res allocated, cleared allocated)"
  using release_allocated_on [OF distinct_resource_types, of res allocated] assms
  by (simp add: resource_types_all)

lemma pool_complete_iff: "pool_complete gs \<longleftrightarrow> (\<forall>rt. resources gs rt \<noteq> None)"
  using resource_types_all by (auto simp: pool_complete_def list_all_iff)

lemma finish_process_complete:
  assumes "pool_complete gs"
  shows "finish_process gs i =
     (Inr (),
      gs\<lparr>resources := released_pool (resources gs) (allocated_resources (processes gs ! i)),
         processes := (processes gs)[i := (processes gs ! i)
            \<lparr>state := FINISHED,
             allocated_resources := cleared (allocated_resources (processes gs ! i))\<rparr>],
         game_log := game_log gs @ [Finalizado (id' (processes gs ! i)) (name (processes gs ! i))]\<rparr>)"
proof -
  have "release_allocated resource_types (resources gs) (allocated_resources (processes gs ! i)) =
      (Inr (), released_pool (resources gs) (allocated_resources (processes gs ! i)),
       cleared (allocated_resources (processes gs ! i)))"
    using assms by (intro release_allocated_complete) (simp add: pool_complete_iff)
  then show ?thesis
    by (simp add: finish_process_def)
qed

lemma allocate_resource_unknown:
  "find_process (processes gs) process_id = None \<Longrightarrow>
   allocate_resource gs process_id resource_type amount = (Inr False, gs)"
  by (simp add: allocate_resource_def)

lemma allocate_resource_finished:
  "find_process (processes gs) process_id = Some i \<Longrightarrow> state (processes gs ! i) = FINISHED \<Longrightarrow>
   allocate_resource gs process_id resource_type amount = (Inr False, gs)"
  by (simp add: allocate_resource_def)

lemma allocate_resource_insufficient:
  "resources gs resource_type = Some res \<Longrightarrow> available res < amount \<Longrightarrow>
   allocate_resource gs process_id resource_type amount = (Inr False, gs)"
  by (simp add: allocate_resource_def allocate_def Let_def split: option.splits)

lemma allocate_resource_transfer:
  assumes "find_process (processes gs) process_id = Some i"
    and "state (processes gs ! i) \<noteq> FINISHED"
    and "resources gs resource_type = Some res" and "amount \<le> available res"
    and "allocated_resources (processes gs ! i) resource_type = Some a"
    and "p' = (processes gs ! i)\<lparr>allocated_resources :=
               (allocated_resources (processes gs ! i))(resource_type \<mapsto> a + amount)\<rparr>"
    and "\<not> is_satisfied p'"
  shows "allocate_resource gs process_id resource_type amount =
     (Inr True,
      gs\<lparr>resources := (resources gs)(resource_type \<mapsto> res\<lparr>available := available res - amount\<rparr>),
         processes := (processes gs)[i := p'],
         moves := moves gs + 1,
         game_log := game_log gs @ [Alocado amount resource_type process_id]\<rparr>)"
proof -
  have "id' (processes gs ! i) = process_id"
    using find_process_Some [OF assms(1)] by simp
  with assms show ?thesis
    by (simp add: allocate_resource_def allocate_def Let_def)
qed

lemma allocate_resource_finish:
  assumes "find_process (processes gs) process_id = Some i"
    and "state (processes gs ! i) \<noteq> FINISHED"
    and "resources gs resource_type = Some res" and "amount \<le> available res"
    and "allocated_resources (processes gs ! i) resource_type = Some a"
    and "p' = (processes gs ! i)\<lparr>allocated_resources :=
               (allocated_resources (processes gs ! i))(resource_type \<mapsto> a + amount)\<rparr>"
    and "is_satisfied p'" and "pool_complete gs"
  shows "allocate_resource gs process_id resource_type amount =
     (Inr True,
      gs\<lparr>resources := released_pool
           ((resources gs)(resource_type \<mapsto> res\<lparr>available := available res - amount\<rparr>))
           (allocated_resources p'),
         processes := (processes gs)[i := p'\<lparr>state := FINISHED,
                                             allocated_resources := cleared (allocated_resources p')\<rparr>],
         moves := moves gs + 1,
         game_log := game_log gs @
           [Finalizado process_id (name (processes gs ! i)), Alocado amount resource_type process_id]\<rparr>)"
proof -
  have i: "i < length (processes gs)" "id' (processes gs ! i) = process_id"
    using find_process_Some [OF assms(1)] by simp_all
  let ?gs2 = "gs\<lparr>resources := (resources gs)(resource_type \<mapsto> res\<lparr>available := available res - amount\<rparr>),
                 processes := (processes gs)[i := p'], moves := moves gs + 1\<rparr>"
  have "pool_complete ?gs2"
    using assms(8) by (simp add: pool_complete_iff)
  from finish_process_complete [OF this, of i] i assms(6)
  have "finish_process ?gs2 i =
     (Inr (),
      ?gs2\<lparr>resources := released_pool (resources ?gs2) (allocated_resources p'),
         processes := (processes ?gs2)[i := p'\<lparr>state := FINISHED,
             allocated_resources := cleared (allocated_resources p')\<rparr>],
         game_log := game_log ?gs2 @ [Finalizado process_id (name (processes gs ! i))]\<rparr>)"
    by simp
  with assms i show ?thesis
    by (simp add: allocate_resource_def allocate_def Let_def)
qed

lemmas compute_defs =
  allocate_resource_def allocate_def release_def finish_process_def is_satisfied_def can_finish_def
  resource_types_def get0_def zero_allocation_def get_available_resources_def unfinished_of_def

lemma cpu_given_reached: "run level1_state [(''P1'', CPU, 1)] = Inr cpu_given_state"
  by (simp add: level1_state_def cpu_given_state_def compute_defs fun_eq_iff)

text \<open>
  C4, amended. \<^verbatim>\<open>allocate_resource(process_id, resource_type, amount)\<close> returns \<^verbatim>\<open>False\<close>
  and leaves the whole state as it was when no process has the id, when the process is
  finished, or when \<^verbatim>\<open>available\<close> of the kind is below the amount. Otherwise, the kind being
  a key of the process's allocation, it returns \<^verbatim>\<open>True\<close>, the move counter is one higher
  and the entry of the call is the last of the log. When the allocation does not satisfy
  the process, \<^verbatim>\<open>available\<close> of the kind is lower by the amount, the process's allocation
  of the kind higher by the amount, and nothing else has changed. When it satisfies the
  process, the process is finished in the same call: every positive amount it then holds,
  the amount of the call included, is set to 0 and released to the pool
  (\<^verbatim>\<open>available = min(total, available + amount)\<close>), an entry for the finish precedes the
  entry of the call, and nothing else has changed.
\<close>

theorem allocate_resource_outcome:
  "(find_process (processes gs) process_id = None \<longrightarrow>
      allocate_resource gs process_id resource_type amount = (Inr False, gs)) \<and>
   (find_process (processes gs) process_id = Some i \<and> state (processes gs ! i) = FINISHED \<longrightarrow>
      allocate_resource gs process_id resource_type amount = (Inr False, gs)) \<and>
   (resources gs resource_type = Some res \<and> available res < amount \<longrightarrow>
      allocate_resource gs process_id resource_type amount = (Inr False, gs)) \<and>
   (find_process (processes gs) process_id = Some i \<and> state (processes gs ! i) \<noteq> FINISHED \<and>
    resources gs resource_type = Some res \<and> amount \<le> available res \<and>
    allocated_resources (processes gs ! i) resource_type = Some a \<and>
    p' = (processes gs ! i)\<lparr>allocated_resources :=
           (allocated_resources (processes gs ! i))(resource_type \<mapsto> a + amount)\<rparr> \<longrightarrow>
      (\<not> is_satisfied p' \<longrightarrow>
         allocate_resource gs process_id resource_type amount =
           (Inr True,
            gs\<lparr>resources :=
                 (resources gs)(resource_type \<mapsto> res\<lparr>available := available res - amount\<rparr>),
               processes := (processes gs)[i := p'],
               moves := moves gs + 1,
               game_log := game_log gs @ [Alocado amount resource_type process_id]\<rparr>)) \<and>
      (is_satisfied p' \<and> pool_complete gs \<longrightarrow>
         allocate_resource gs process_id resource_type amount =
           (Inr True,
            gs\<lparr>resources :=
                 released_pool
                   ((resources gs)(resource_type \<mapsto> res\<lparr>available := available res - amount\<rparr>))
                   (allocated_resources p'),
               processes :=
                 (processes gs)[i := p'\<lparr>state := FINISHED,
                                           allocated_resources := cleared (allocated_resources p')\<rparr>],
               moves := moves gs + 1,
               game_log := game_log gs @
                 [Finalizado process_id (name (processes gs ! i)),
                  Alocado amount resource_type process_id]\<rparr>)))"
proof (intro conjI impI; (elim conjE)?)
  show "allocate_resource gs process_id resource_type amount = (Inr False, gs)"
    if "find_process (processes gs) process_id = None"
    using that by (rule allocate_resource_unknown)
  show "allocate_resource gs process_id resource_type amount = (Inr False, gs)"
    if "find_process (processes gs) process_id = Some i" "state (processes gs ! i) = FINISHED"
    using that by (rule allocate_resource_finished)
  show "allocate_resource gs process_id resource_type amount = (Inr False, gs)"
    if "resources gs resource_type = Some res" "available res < amount"
    using that by (rule allocate_resource_insufficient)
next
  assume h: "find_process (processes gs) process_id = Some i" "state (processes gs ! i) \<noteq> FINISHED"
    "resources gs resource_type = Some res" "amount \<le> available res"
    "allocated_resources (processes gs ! i) resource_type = Some a"
    "p' = (processes gs ! i)\<lparr>allocated_resources :=
           (allocated_resources (processes gs ! i))(resource_type \<mapsto> a + amount)\<rparr>"
  show "allocate_resource gs process_id resource_type amount =
           (Inr True,
            gs\<lparr>resources :=
                 (resources gs)(resource_type \<mapsto> res\<lparr>available := available res - amount\<rparr>),
               processes := (processes gs)[i := p'],
               moves := moves gs + 1,
               game_log := game_log gs @ [Alocado amount resource_type process_id]\<rparr>)"
    if "\<not> is_satisfied p'"
    using h that by (rule allocate_resource_transfer)
  show "allocate_resource gs process_id resource_type amount =
           (Inr True,
            gs\<lparr>resources :=
                 released_pool
                   ((resources gs)(resource_type \<mapsto> res\<lparr>available := available res - amount\<rparr>))
                   (allocated_resources p'),
               processes :=
                 (processes gs)[i := p'\<lparr>state := FINISHED,
                                           allocated_resources := cleared (allocated_resources p')\<rparr>],
               moves := moves gs + 1,
               game_log := game_log gs @
                 [Finalizado process_id (name (processes gs ! i)),
                  Alocado amount resource_type process_id]\<rparr>)"
    if "is_satisfied p'" "pool_complete gs"
    using h that by (rule allocate_resource_finish)
qed

theorem allocate_resource_outcome_witness:
  "allocate_resource level1_state ''P9'' CPU 1 = (Inr False, level1_state) \<and>
   allocate_resource completed_state ''P1'' CPU 1 = (Inr False, completed_state) \<and>
   allocate_resource level1_state ''P1'' IMPRESSORA 3 = (Inr False, level1_state) \<and>
   allocate_resource level1_state ''P1'' CPU 1 = (Inr True, cpu_given_state) \<and>
   allocate_resource cpu_given_state ''P1'' MEMORIA 2 = (Inr True, editor_done_state)"
proof -
  have w1: "allocate_resource level1_state ''P9'' CPU 1 = (Inr False, level1_state)"
    using allocate_resource_outcome [where gs = level1_state and process_id = "''P9''"
        and resource_type = CPU and amount = 1]
    by (simp add: level1_state_def)
  have w2: "allocate_resource completed_state ''P1'' CPU 1 = (Inr False, completed_state)"
    using allocate_resource_outcome [where gs = completed_state and process_id = "''P1''"
        and resource_type = CPU and amount = 1 and i = 0]
    by (simp add: completed_state_def)
  have w3: "allocate_resource level1_state ''P1'' IMPRESSORA 3 = (Inr False, level1_state)"
    using allocate_resource_outcome [where gs = level1_state and process_id = "''P1''"
        and resource_type = IMPRESSORA and amount = 3
        and res = "\<lparr>type' = IMPRESSORA, total' = 2, available = 2\<rparr>"]
    by (simp add: level1_state_def)
  have w4: "allocate_resource level1_state ''P1'' CPU 1 = (Inr True, cpu_given_state)"
    using allocate_resource_outcome [where gs = level1_state and process_id = "''P1''"
        and resource_type = CPU and amount = 1 and i = 0
        and res = "\<lparr>type' = CPU, total' = 4, available = 4\<rparr>" and a = 0
        and p' = "(processes level1_state ! 0)\<lparr>allocated_resources :=
           (allocated_resources (processes level1_state ! 0))(CPU \<mapsto> 0 + 1)\<rparr>"]
    by (simp add: level1_state_def cpu_given_state_def is_satisfied_def resource_types_def
        get0_def zero_allocation_def fun_eq_iff)
  have w5: "allocate_resource cpu_given_state ''P1'' MEMORIA 2 = (Inr True, editor_done_state)"
    using allocate_resource_outcome [where gs = cpu_given_state and process_id = "''P1''"
        and resource_type = MEMORIA and amount = 2 and i = 0
        and res = "\<lparr>type' = MEMORIA, total' = 4, available = 4\<rparr>" and a = 0
        and p' = "(processes cpu_given_state ! 0)\<lparr>allocated_resources :=
           (allocated_resources (processes cpu_given_state ! 0))(MEMORIA \<mapsto> 0 + 2)\<rparr>"]
    by (simp add: cpu_given_state_def editor_done_state_def is_satisfied_def resource_types_def
        get0_def pool_complete_def released_pool_def cleared_def release_def fun_eq_iff)
  from w1 w2 w3 w4 w5 show ?thesis by simp
qed

text \<open>
  C4 as stated fails when the call satisfies the process: P1 holds its one CPU, the call
  gives it the two units of memory it still needs and returns \<^verbatim>\<open>True\<close>; P1 is finished
  and has released everything, so the memory available is 4 as before, not 4 - 2, and
  P1's allocation of memory is 0 as before, not 0 + 2.
\<close>

theorem allocate_resource_counterexample:
  "find_process (processes cpu_given_state) ''P1'' = Some 0 \<and>
   state (processes cpu_given_state ! 0) = WAITING \<and>
   get_available_resources cpu_given_state MEMORIA = Some 4 \<and>
   allocated_resources (processes cpu_given_state ! 0) MEMORIA = Some 0 \<and>
   fst (allocate_resource cpu_given_state ''P1'' MEMORIA 2) = Inr True \<and>
   get_available_resources (snd (allocate_resource cpu_given_state ''P1'' MEMORIA 2)) MEMORIA
     = Some 4 \<and>
   get_available_resources (snd (allocate_resource cpu_given_state ''P1'' MEMORIA 2)) MEMORIA
     \<noteq> Some (4 - 2) \<and>
   allocated_resources (processes (snd (allocate_resource cpu_given_state ''P1'' MEMORIA 2)) ! 0)
     MEMORIA = Some 0 \<and>
   allocated_resources (processes (snd (allocate_resource cpu_given_state ''P1'' MEMORIA 2)) ! 0)
     MEMORIA \<noteq> Some (0 + 2)"
  by (simp add: cpu_given_state_def compute_defs)

subsection \<open>Conservation\<close>

lemma held_share: "held gs rt = sum_list (map (share rt) (processes gs))"
  by (simp add: held_def unfinished_of_def share_def sum_list_map_filter' cong: map_cong)

lemma sum_list_map_update:
  fixes f :: "'a \<Rightarrow> int"
  shows "i < length xs \<Longrightarrow> sum_list (map f (xs[i := y])) = sum_list (map f xs) - f (xs ! i) + f y"
proof (induction xs arbitrary: i)
  case Nil
  then show ?case by simp
next
  case (Cons x xs)
  then show ?case by (cases i) auto
qed

lemma nth_le_sum_list:
  fixes f :: "'a \<Rightarrow> int"
  shows "i < length xs \<Longrightarrow> (\<And>x. x \<in> set xs \<Longrightarrow> 0 \<le> f x) \<Longrightarrow> f (xs ! i) \<le> sum_list (map f xs)"
proof (induction xs arbitrary: i)
  case Nil
  then show ?case by simp
next
  case (Cons x xs)
  have nn: "0 \<le> sum_list (map f xs)"
    using Cons.prems(2) by (intro sum_list_nonneg) auto
  show ?case
  proof (cases i)
    case 0
    with nn show ?thesis by simp
  next
    case (Suc j)
    with Cons.prems have "f (xs ! j) \<le> sum_list (map f xs)"
      by (intro Cons.IH) auto
    moreover have "0 \<le> f x" using Cons.prems(2) by simp
    ultimately show ?thesis using Suc by simp
  qed
qed

lemma keys_complete_iff:
  "keys_complete gs \<longleftrightarrow>
     (\<forall>rt. resources gs rt \<noteq> None) \<and> (\<forall>p\<in>set (processes gs). \<forall>rt. allocated_resources p rt \<noteq> None)"
  using resource_types_all by (auto simp: keys_complete_def list_all_iff)

lemma allocations_nonneg_iff:
  "allocations_nonneg gs \<longleftrightarrow> (\<forall>p\<in>set (processes gs). \<forall>rt. 0 \<le> get0 (allocated_resources p) rt)"
  using resource_types_all by (auto simp: allocations_nonneg_def list_all_iff)

lemma conserved_iff: "conserved gs \<longleftrightarrow> (\<forall>rt. available_of gs rt + held gs rt = total_of gs rt)"
  using resource_types_all by (auto simp: conserved_def list_all_iff)

lemma share_nonneg: "allocations_nonneg gs \<Longrightarrow> p \<in> set (processes gs) \<Longrightarrow> 0 \<le> share rt p"
  by (simp add: allocations_nonneg_iff share_def)

lemma finished_released_iff:
  "finished_released gs \<longleftrightarrow>
     (\<forall>p\<in>set (processes gs). state p = FINISHED \<longrightarrow> (\<forall>rt. allocated_resources p rt = Some 0))"
  using resource_types_all by (auto simp: finished_released_def list_all_iff)

lemma available_of_alt:
  "available_of gs rt = (case resources gs rt of None \<Rightarrow> 0 | Some r \<Rightarrow> available r)"
  by (simp add: available_of_def get_available_resources_def get0_def split: option.splits)

text \<open>The state after the transfer of a call that does not finish the process.\<close>

lemma transfer_quantities:
  assumes i: "i < length (processes gs)"
    and un: "state (processes gs ! i) \<noteq> FINISHED"
    and res: "resources gs k = Some res"
    and a: "allocated_resources (processes gs ! i) k = Some a"
    and p': "p' = (processes gs ! i)\<lparr>allocated_resources :=
               (allocated_resources (processes gs ! i))(k \<mapsto> a + amount)\<rparr>"
    and gs': "resources gs' = (resources gs)(k \<mapsto> res\<lparr>available := available res - amount\<rparr>)"
       "processes gs' = (processes gs)[i := p']"
  shows "available_of gs' rt = available_of gs rt - (if rt = k then amount else 0)"
    and "total_of gs' rt = total_of gs rt"
    and "held gs' rt = held gs rt + (if rt = k then amount else 0)"
proof -
  show "available_of gs' rt = available_of gs rt - (if rt = k then amount else 0)"
    using res gs' by (simp add: available_of_alt)
  show "total_of gs' rt = total_of gs rt"
    using res gs' by (simp add: total_of_def)
  have "share rt p' = share rt (processes gs ! i) + (if rt = k then amount else 0)"
    using un a p' by (simp add: share_def get0_def)
  then show "held gs' rt = held gs rt + (if rt = k then amount else 0)"
    using i gs' by (simp add: held_share sum_list_map_update)
qed

lemma set_update_cases: "x \<in> set (xs[i := y]) \<Longrightarrow> x = y \<or> x \<in> set xs"
  using set_update_subset_insert [of xs i y] by auto

lemma transfer_sound:
  assumes s: "sound gs" and am: "0 \<le> amount"
    and i: "i < length (processes gs)"
    and un: "state (processes gs ! i) \<noteq> FINISHED"
    and res: "resources gs k = Some res"
    and a: "allocated_resources (processes gs ! i) k = Some a"
    and p': "p' = (processes gs ! i)\<lparr>allocated_resources :=
               (allocated_resources (processes gs ! i))(k \<mapsto> a + amount)\<rparr>"
    and gs': "resources gs' = (resources gs)(k \<mapsto> res\<lparr>available := available res - amount\<rparr>)"
       "processes gs' = (processes gs)[i := p']"
  shows "sound gs'"
proof -
  have mem: "processes gs ! i \<in> set (processes gs)" using i by simp
  have a0: "0 \<le> a"
    using s mem a by (auto simp: sound_def allocations_nonneg_iff get0_def dest!: bspec [where x = "processes gs ! i"] spec [where x = k])
  have k: "keys_complete gs'"
    using s gs' p' mem
    by (auto simp: sound_def keys_complete_iff dest!: set_update_cases)
  have n: "allocations_nonneg gs'"
    using s gs' p' mem a0 am
    by (auto simp: sound_def allocations_nonneg_iff get0_def dest!: set_update_cases)
  have c: "conserved gs'"
    using s transfer_quantities [OF i un res a p' gs']
    by (simp add: sound_def conserved_iff)
  have f: "finished_released gs'"
    using s gs' p' un
    by (auto simp: sound_def finished_released_iff dest!: set_update_cases)
  from k n c f show ?thesis by (simp add: sound_def)
qed

lemma finish_quantities:
  assumes s: "sound gs"
    and i: "i < length (processes gs)"
    and un: "state (processes gs ! i) \<noteq> FINISHED"
    and gs': "resources gs' = released_pool (resources gs) (allocated_resources (processes gs ! i))"
       "processes gs' = (processes gs)[i := (processes gs ! i)
           \<lparr>state := FINISHED,
            allocated_resources := cleared (allocated_resources (processes gs ! i))\<rparr>]"
  shows "available_of gs' rt = available_of gs rt + get0 (allocated_resources (processes gs ! i)) rt"
    and "total_of gs' rt = total_of gs rt"
    and "held gs' rt = held gs rt - get0 (allocated_resources (processes gs ! i)) rt"
    and "allocated_resources (processes gs' ! i) rt = Some 0"
proof -
  let ?p = "processes gs ! i"
  have mem: "?p \<in> set (processes gs)" using i by simp
  from s mem have "allocated_resources ?p rt \<noteq> None"
    unfolding sound_def keys_complete_iff by blast
  then obtain v where v: "allocated_resources ?p rt = Some v"
    by auto
  from s mem v have v0: "0 \<le> v"
    by (auto simp: sound_def allocations_nonneg_iff get0_def dest!: bspec [where x = ?p] spec [where x = rt])
  from s have "resources gs rt \<noteq> None"
    unfolding sound_def keys_complete_iff by blast
  then obtain r where r: "resources gs rt = Some r"
    by auto
  have sh: "share rt ?p = v"
    using un v by (simp add: share_def get0_def)
  have "share rt ?p \<le> sum_list (map (share rt) (processes gs))"
    using i s by (intro nth_le_sum_list) (auto simp: sound_def share_nonneg)
  then have "v \<le> held gs rt"
    by (simp add: held_share sh)
  moreover have "available_of gs rt + held gs rt = total_of gs rt"
    using s by (simp add: sound_def conserved_iff)
  ultimately have le: "available r + v \<le> total' r"
    using r by (simp add: available_of_alt total_of_def)
  show "available_of gs' rt = available_of gs rt + get0 (allocated_resources ?p) rt"
    using r v v0 le gs'
    by (simp add: available_of_alt released_pool_def release_def get0_def)
  show "total_of gs' rt = total_of gs rt"
    using r v gs' by (simp add: total_of_def released_pool_def release_def)
  have "share rt (?p\<lparr>state := FINISHED, allocated_resources := cleared (allocated_resources ?p)\<rparr>) = 0"
    by (simp add: share_def)
  then show "held gs' rt = held gs rt - get0 (allocated_resources ?p) rt"
    using i gs' sh v by (simp add: held_share sum_list_map_update get0_def)
  show "allocated_resources (processes gs' ! i) rt = Some 0"
    using i gs' v v0 by (simp add: cleared_def)
qed

lemma finish_sound:
  assumes s: "sound gs"
    and i: "i < length (processes gs)"
    and un: "state (processes gs ! i) \<noteq> FINISHED"
    and gs': "resources gs' = released_pool (resources gs) (allocated_resources (processes gs ! i))"
       "processes gs' = (processes gs)[i := (processes gs ! i)
           \<lparr>state := FINISHED,
            allocated_resources := cleared (allocated_resources (processes gs ! i))\<rparr>]"
  shows "sound gs'"
proof -
  let ?p = "processes gs ! i"
  let ?q = "?p\<lparr>state := FINISHED, allocated_resources := cleared (allocated_resources ?p)\<rparr>"
  have mem: "?p \<in> set (processes gs)" using i by simp
  note q = finish_quantities [OF s i un gs']
  have all0: "allocated_resources ?q rt = Some 0" for rt
    using q(4) [of rt] i gs' by simp
  have k: "keys_complete gs'"
  proof -
    have "resources gs' rt \<noteq> None" for rt
      using s gs' by (auto simp: sound_def keys_complete_iff released_pool_def split: option.splits)
    moreover have "allocated_resources p rt \<noteq> None" if "p \<in> set (processes gs')" for p rt
    proof -
      from that gs' have "p = ?q \<or> p \<in> set (processes gs)"
        by (auto dest!: set_update_cases)
      then show ?thesis
        using all0 [of rt] s by (auto simp: sound_def keys_complete_iff)
    qed
    ultimately show ?thesis by (simp add: keys_complete_iff)
  qed
  have n: "allocations_nonneg gs'"
  proof -
    have "0 \<le> get0 (allocated_resources p) rt" if "p \<in> set (processes gs')" for p rt
    proof -
      from that gs' have "p = ?q \<or> p \<in> set (processes gs)"
        by (auto dest!: set_update_cases)
      then show ?thesis
        using all0 [of rt] s by (auto simp: sound_def allocations_nonneg_iff get0_def)
    qed
    then show ?thesis by (simp add: allocations_nonneg_iff)
  qed
  have c: "conserved gs'"
    using s q(1,2,3) by (simp add: sound_def conserved_iff)
  have f: "finished_released gs'"
  proof -
    have "allocated_resources p rt = Some 0"
      if "p \<in> set (processes gs')" "state p = FINISHED" for p rt
    proof -
      from that gs' have "p = ?q \<or> p \<in> set (processes gs)"
        by (auto dest!: set_update_cases)
      then show ?thesis
        using all0 [of rt] s that(2) by (auto simp: sound_def finished_released_iff)
    qed
    then show ?thesis by (simp add: finished_released_iff)
  qed
  from k n c f show ?thesis by (simp add: sound_def)
qed

lemma allocate_resource_sound:
  assumes s: "sound gs" and am: "0 \<le> amount"
  shows "\<exists>ok gs'. allocate_resource gs process_id k amount = (Inr ok, gs') \<and> sound gs' \<and>
           (\<forall>rt. total_of gs' rt = total_of gs rt)"
proof (cases "find_process (processes gs) process_id")
  case None
  with s show ?thesis by (auto simp: allocate_resource_unknown)
next
  case (Some i)
  then have i: "i < length (processes gs)" by (simp add: find_process_Some)
  let ?p = "processes gs ! i"
  have mem: "?p \<in> set (processes gs)" using i by simp
  show ?thesis
  proof (cases "state ?p = FINISHED")
    case True
    with Some s show ?thesis by (auto simp: allocate_resource_finished)
  next
    case un: False
    from s have "resources gs k \<noteq> None"
      unfolding sound_def keys_complete_iff by blast
    then obtain res where res: "resources gs k = Some res" by auto
    show ?thesis
    proof (cases "available res < amount")
      case True
      with res s show ?thesis by (auto simp: allocate_resource_insufficient)
    next
      case False
      then have le: "amount \<le> available res" by simp
      from s mem have "allocated_resources ?p k \<noteq> None"
        unfolding sound_def keys_complete_iff by blast
      then obtain a where a: "allocated_resources ?p k = Some a" by auto
      define p' where "p' = ?p\<lparr>allocated_resources := (allocated_resources ?p)(k \<mapsto> a + amount)\<rparr>"
      define T where "T = gs\<lparr>resources := (resources gs)(k \<mapsto> res\<lparr>available := available res - amount\<rparr>),
                              processes := (processes gs)[i := p']\<rparr>"
      have T: "resources T = (resources gs)(k \<mapsto> res\<lparr>available := available res - amount\<rparr>)"
        "processes T = (processes gs)[i := p']"
        by (simp_all add: T_def)
      have sT: "sound T"
        by (rule transfer_sound [OF s am i un res a p'_def T])
      have tT: "total_of T rt = total_of gs rt" for rt
        by (rule transfer_quantities(2) [OF i un res a p'_def T])
      show ?thesis
      proof (cases "is_satisfied p'")
        case False
        note eq = allocate_resource_transfer [OF Some un res le a p'_def False]
        let ?gs' = "gs\<lparr>resources := (resources gs)(k \<mapsto> res\<lparr>available := available res - amount\<rparr>),
                        processes := (processes gs)[i := p'], moves := moves gs + 1,
                        game_log := game_log gs @ [Alocado amount k process_id]\<rparr>"
        have "sound ?gs'"
          by (rule transfer_sound [OF s am i un res a p'_def]) simp_all
        moreover have "total_of ?gs' rt = total_of gs rt" for rt
          by (rule transfer_quantities(2) [OF i un res a p'_def]) simp_all
        ultimately show ?thesis using eq by auto
      next
        case True
        have pc: "pool_complete gs"
          using s by (simp add: sound_def keys_complete_iff pool_complete_iff)
        note eq = allocate_resource_finish [OF Some un res le a p'_def True pc]
        let ?gs' = "gs\<lparr>resources := released_pool
             ((resources gs)(k \<mapsto> res\<lparr>available := available res - amount\<rparr>))
             (allocated_resources p'),
           processes := (processes gs)[i := p'\<lparr>state := FINISHED,
                                               allocated_resources := cleared (allocated_resources p')\<rparr>],
           moves := moves gs + 1,
           game_log := game_log gs @
             [Finalizado process_id (name (processes gs ! i)), Alocado amount k process_id]\<rparr>"
        have iT: "i < length (processes T)" using i T by simp
        have pT: "processes T ! i = p'" using i T by simp
        have unT: "state (processes T ! i) \<noteq> FINISHED"
          using un pT by (simp add: p'_def)
        have r1: "resources ?gs' = released_pool (resources T) (allocated_resources (processes T ! i))"
          using T pT by simp
        have r2: "processes ?gs' = (processes T)[i := (processes T ! i)
           \<lparr>state := FINISHED,
            allocated_resources := cleared (allocated_resources (processes T ! i))\<rparr>]"
          using T pT by simp
        have "sound ?gs'"
          by (rule finish_sound [OF sT iT unT r1 r2])
        moreover have "total_of ?gs' rt = total_of gs rt" for rt
          using finish_quantities(2) [OF sT iT unT r1 r2, of rt] tT [of rt] by simp
        ultimately show ?thesis using eq by auto
      qed
    qed
  qed
qed

lemma run_sound:
  "sound gs \<Longrightarrow> amounts_nonneg calls \<Longrightarrow>
   \<exists>gs'. run gs calls = Inr gs' \<and> sound gs' \<and> (\<forall>rt. total_of gs' rt = total_of gs rt)"
proof (induction calls arbitrary: gs)
  case Nil
  then show ?case by simp
next
  case (Cons c calls)
  obtain process_id k amount where c: "c = (process_id, k, amount)"
    by (cases c) auto
  with Cons.prems have am: "0 \<le> amount" and rest: "amounts_nonneg calls"
    by (simp_all add: amounts_nonneg_def)
  from allocate_resource_sound [OF Cons.prems(1) am, of process_id k]
  obtain ok gs1 where step: "allocate_resource gs process_id k amount = (Inr ok, gs1)"
    and s1: "sound gs1" and t1: "\<forall>rt. total_of gs1 rt = total_of gs rt"
    by blast
  from Cons.IH [OF s1 rest] obtain gs' where "run gs1 calls = Inr gs'" "sound gs'"
    "\<forall>rt. total_of gs' rt = total_of gs1 rt"
    by blast
  with step t1 c show ?case by simp
qed

lemma zero_allocation_Some: "zero_allocation rt = Some 0"
  by (cases rt) (simp_all add: zero_allocation_def resource_types_def)

lemma Process_init_zero:
  "Process_init i n required zero_allocation =
     \<lparr>id' = i, name = n, required_resources = required, allocated_resources = zero_allocation,
      state = WAITING\<rparr>"
  by (simp add: Process_init_def)

lemma make_processes_fresh:
  "p \<in> set (make_processes lvl randint n i selected) \<Longrightarrow>
   allocated_resources p = zero_allocation \<and> state p = WAITING"
proof (induction selected arbitrary: n i)
  case Nil
  then show ?case by simp
next
  case (Cons t selected)
  obtain nm requirements where t: "t = (nm, requirements)" by (cases t) auto
  obtain varied n' where v: "vary_requirements lvl randint n requirements Map.empty = (varied, n')"
    by (cases "vary_requirements lvl randint n requirements Map.empty") auto
  from Cons.prems t v
  have "p = Process_init (''P'' @ str_nat (i + 1)) nm varied zero_allocation \<or>
        p \<in> set (make_processes lvl randint n' (i + 1) selected)"
    by simp
  then show ?case
    using Cons.IH by (auto simp: Process_init_zero)
qed

lemma initialize_resources_at:
  "\<exists>b. initialize_resources scaled rt =
     Some \<lparr>type' = rt, total' = max 2 (scaled b), available = max 2 (scaled b)\<rparr>"
  by (cases rt) (auto simp: initialize_resources_def base_amounts_def Let_def)

lemma GameState_init_fields:
  assumes "GameState_init lvl scaled selected randint = Inr gs0"
  shows "level gs0 = lvl" and "resources gs0 = initialize_resources scaled"
    and "processes gs0 = make_processes lvl randint 0 0 selected"
    and "game_log gs0 = []" and "moves gs0 = 0" and "max_moves gs0 = 20"
  using assms
  by (auto simp: GameState_init_def generate_processes_def split: sum.splits if_splits)

lemma created_sound:
  assumes "GameState_init lvl scaled selected randint = Inr gs0"
  shows "sound gs0"
proof -
  note f = GameState_init_fields [OF assms]
  have fresh: "allocated_resources p = zero_allocation" "state p = WAITING"
    if "p \<in> set (processes gs0)" for p
    using that make_processes_fresh [of p lvl randint 0 0 selected] f(3) by simp_all
  have res: "\<exists>b. resources gs0 rt =
     Some \<lparr>type' = rt, total' = max 2 (scaled b), available = max 2 (scaled b)\<rparr>" for rt
    using initialize_resources_at [of scaled rt] f(2) by simp
  have k: "keys_complete gs0"
    unfolding keys_complete_iff
  proof (intro conjI allI ballI)
    show "resources gs0 rt \<noteq> None" for rt
      using res [of rt] by auto
    show "allocated_resources p rt \<noteq> None" if "p \<in> set (processes gs0)" for p rt
      using fresh(1) [OF that] by (simp add: zero_allocation_Some)
  qed
  have n: "allocations_nonneg gs0"
    unfolding allocations_nonneg_iff
    using fresh(1) by (simp add: get0_def zero_allocation_Some)
  have "share rt p = 0" if "p \<in> set (processes gs0)" for p rt
    using fresh(1) [OF that] by (simp add: share_def get0_def zero_allocation_Some)
  then have h: "held gs0 rt = 0" for rt
    by (simp add: held_share cong: map_cong)
  have "available_of gs0 rt = total_of gs0 rt" for rt
    using res [of rt] by (auto simp: available_of_alt total_of_def)
  with h have c: "conserved gs0"
    by (simp add: conserved_iff)
  have fr: "finished_released gs0"
    unfolding finished_released_iff using fresh(2) by auto
  from k n c fr show ?thesis by (simp add: sound_def)
qed

lemma clamped_reached:
  "run level1_state [(''P2'', CPU, - 1), (''P1'', MEMORIA, 2), (''P1'', CPU, 1)] = Inr clamped_state"
  by (simp add: level1_state_def clamped_state_def compute_defs fun_eq_iff)

text \<open>
  C2, amended. In every state reached from the creation of a level by calls of
  \<^verbatim>\<open>allocate_resource\<close> with amounts that are not negative (no such run raises), for every
  kind, \<^verbatim>\<open>available\<close> plus the sum of the allocations of the processes that are not
  finished is \<^verbatim>\<open>total\<close>, and \<^verbatim>\<open>total\<close> is what it was at the creation.
\<close>

theorem conservation_invariant:
  assumes "GameState_init lvl scaled selected randint = Inr gs0" and "amounts_nonneg calls"
  shows "\<exists>gs. run gs0 calls = Inr gs \<and>
           (\<forall>rt. available_of gs rt + held gs rt = total_of gs rt \<and>
                 total_of gs rt = total_of gs0 rt)"
proof -
  from run_sound [OF created_sound [OF assms(1)] assms(2)]
  obtain gs where "run gs0 calls = Inr gs" "sound gs" "\<forall>rt. total_of gs rt = total_of gs0 rt"
    by blast
  then show ?thesis
    by (auto simp: sound_def conserved_iff)
qed

theorem conservation_invariant_witness:
  "GameState_init 1 level1_scaled level1_sample (\<lambda>n. 0) = Inr level1_state \<and>
   amounts_nonneg [(''P1'', DISCO, 3), (''P2'', MEMORIA, 4)] \<and>
   run level1_state [(''P1'', DISCO, 3), (''P2'', MEMORIA, 4)] = Inr hogged_state \<and>
   (\<forall>rt. available_of hogged_state rt + held hogged_state rt = total_of hogged_state rt \<and>
         total_of hogged_state rt = total_of level1_state rt) \<and>
   map (available_of hogged_state) resource_types = [4, 0, 0, 2] \<and>
   map (held hogged_state) resource_types = [0, 4, 3, 0] \<and>
   map (total_of hogged_state) resource_types = [4, 4, 3, 2]"
proof -
  have n: "amounts_nonneg [(''P1'', DISCO, 3), (''P2'', MEMORIA, 4)]"
    by (simp add: amounts_nonneg_def)
  from conservation_invariant [OF level1_created n] hogged_reached
  have "\<forall>rt. available_of hogged_state rt + held hogged_state rt = total_of hogged_state rt \<and>
             total_of hogged_state rt = total_of level1_state rt"
    by simp
  moreover have "map (available_of hogged_state) resource_types = [4, 0, 0, 2]"
    by (simp add: hogged_state_def available_of_def compute_defs)
  moreover have "map (held hogged_state) resource_types = [0, 4, 3, 0]"
    by (simp add: hogged_state_def held_def compute_defs)
  moreover have "map (total_of hogged_state) resource_types = [4, 4, 3, 2]"
    by (simp add: hogged_state_def total_of_def resource_types_def)
  ultimately show ?thesis
    using level1_created n hogged_reached by blast
qed

text \<open>
  C2 as stated fails with a negative amount: P2 is given -1 CPU, then P1 is given all it
  requires and finishes. The release of P1's CPU is cut at the total, so 4 CPUs are
  available while P2, not finished, holds -1: 4 + (-1) is not the total 4.
\<close>

theorem conservation_counterexample:
  "GameState_init 1 level1_scaled level1_sample (\<lambda>n. 0) = Inr level1_state \<and>
   run level1_state [(''P2'', CPU, - 1), (''P1'', MEMORIA, 2), (''P1'', CPU, 1)] = Inr clamped_state \<and>
   available_of clamped_state CPU = 4 \<and> held clamped_state CPU = - 1 \<and>
   total_of clamped_state CPU = 4 \<and>
   available_of clamped_state CPU + held clamped_state CPU \<noteq> total_of clamped_state CPU"
  using level1_created clamped_reached
  by (simp add: clamped_state_def available_of_def held_def total_of_def compute_defs)

subsection \<open>A finished process has released everything\<close>

lemma debt_reached:
  "run level1_state [(''P1'', DISCO, - 1), (''P1'', CPU, 1), (''P1'', MEMORIA, 2)] = Inr debt_state"
  by (simp add: level1_state_def debt_state_def compute_defs fun_eq_iff)

lemma finishing_call:
  assumes s: "sound gs" and am: "0 \<le> amount"
    and f: "find_process (processes gs) process_id = Some i"
    and un: "state (processes gs ! i) \<noteq> FINISHED"
    and res: "resources gs k = Some res" and le: "amount \<le> available res"
    and a: "allocated_resources (processes gs ! i) k = Some a"
    and p': "p' = (processes gs ! i)\<lparr>allocated_resources :=
               (allocated_resources (processes gs ! i))(k \<mapsto> a + amount)\<rparr>"
    and sat: "is_satisfied p'"
  shows "\<exists>gs'. allocate_resource gs process_id k amount = (Inr True, gs') \<and>
           state (processes gs' ! i) = FINISHED \<and>
           (\<forall>rt. allocated_resources (processes gs' ! i) rt = Some 0 \<and>
                 available_of gs' rt =
                   available_of gs rt - (if rt = k then amount else 0) +
                   get0 (allocated_resources p') rt)"
proof -
  have i: "i < length (processes gs)" using f by (simp add: find_process_Some)
  define T where "T = gs\<lparr>resources := (resources gs)(k \<mapsto> res\<lparr>available := available res - amount\<rparr>),
                          processes := (processes gs)[i := p']\<rparr>"
  have T: "resources T = (resources gs)(k \<mapsto> res\<lparr>available := available res - amount\<rparr>)"
    "processes T = (processes gs)[i := p']"
    by (simp_all add: T_def)
  have sT: "sound T"
    by (rule transfer_sound [OF s am i un res a p' T])
  have aT: "available_of T rt = available_of gs rt - (if rt = k then amount else 0)" for rt
    by (rule transfer_quantities(1) [OF i un res a p' T])
  have pc: "pool_complete gs"
    using s by (simp add: sound_def keys_complete_iff pool_complete_iff)
  note eq = allocate_resource_finish [OF f un res le a p' sat pc]
  let ?gs' = "gs\<lparr>resources := released_pool
       ((resources gs)(k \<mapsto> res\<lparr>available := available res - amount\<rparr>))
       (allocated_resources p'),
     processes := (processes gs)[i := p'\<lparr>state := FINISHED,
                                         allocated_resources := cleared (allocated_resources p')\<rparr>],
     moves := moves gs + 1,
     game_log := game_log gs @
       [Finalizado process_id (name (processes gs ! i)), Alocado amount k process_id]\<rparr>"
  have iT: "i < length (processes T)" using i T by simp
  have pT: "processes T ! i = p'" using i T by simp
  have unT: "state (processes T ! i) \<noteq> FINISHED"
    using un pT by (simp add: p')
  have r1: "resources ?gs' = released_pool (resources T) (allocated_resources (processes T ! i))"
    using T pT by simp
  have r2: "processes ?gs' = (processes T)[i := (processes T ! i)
     \<lparr>state := FINISHED,
      allocated_resources := cleared (allocated_resources (processes T ! i))\<rparr>]"
    using T pT by simp
  note q = finish_quantities [OF sT iT unT r1 r2]
  have "state (processes ?gs' ! i) = FINISHED"
    using i by simp
  moreover have "allocated_resources (processes ?gs' ! i) rt = Some 0" for rt
    by (rule q(4))
  moreover have "available_of ?gs' rt =
      available_of gs rt - (if rt = k then amount else 0) + get0 (allocated_resources p') rt" for rt
    using q(1) [of rt] aT [of rt] pT by simp
  ultimately show ?thesis
    using eq by blast
qed

text \<open>
  C5, amended. In a state reached from the creation of a level by calls with amounts that
  are not negative, no finished process holds anything: its allocation is 0 for every
  kind. A call there with an amount that is not negative, which the pool can serve and
  which satisfies the process, returns \<^verbatim>\<open>True\<close>; after it the process is finished, its
  allocation is 0 for every kind, and for every kind \<^verbatim>\<open>available\<close> is what the call left
  in the pool plus what the process held at that moment.
\<close>

theorem finish_implies_released:
  assumes "GameState_init lvl scaled selected randint = Inr gs0" and "amounts_nonneg calls"
    and "run gs0 calls = Inr gs"
  shows "finished_released gs \<and>
    (0 \<le> amount \<and> find_process (processes gs) process_id = Some i \<and>
     state (processes gs ! i) \<noteq> FINISHED \<and>
     resources gs k = Some res \<and> amount \<le> available res \<and>
     allocated_resources (processes gs ! i) k = Some a \<and>
     p' = (processes gs ! i)\<lparr>allocated_resources :=
            (allocated_resources (processes gs ! i))(k \<mapsto> a + amount)\<rparr> \<and>
     is_satisfied p' \<longrightarrow>
       (\<exists>gs'. allocate_resource gs process_id k amount = (Inr True, gs') \<and>
           state (processes gs' ! i) = FINISHED \<and>
           (\<forall>rt. allocated_resources (processes gs' ! i) rt = Some 0 \<and>
                 available_of gs' rt =
                   available_of gs rt - (if rt = k then amount else 0) +
                   get0 (allocated_resources p') rt)))"
proof -
  from run_sound [OF created_sound [OF assms(1)] assms(2)] assms(3)
  have s: "sound gs" by auto
  then have "finished_released gs" by (simp add: sound_def)
  moreover have "\<exists>gs'. allocate_resource gs process_id k amount = (Inr True, gs') \<and>
           state (processes gs' ! i) = FINISHED \<and>
           (\<forall>rt. allocated_resources (processes gs' ! i) rt = Some 0 \<and>
                 available_of gs' rt =
                   available_of gs rt - (if rt = k then amount else 0) +
                   get0 (allocated_resources p') rt)"
    if "0 \<le> amount" "find_process (processes gs) process_id = Some i"
      "state (processes gs ! i) \<noteq> FINISHED" "resources gs k = Some res" "amount \<le> available res"
      "allocated_resources (processes gs ! i) k = Some a"
      "p' = (processes gs ! i)\<lparr>allocated_resources :=
            (allocated_resources (processes gs ! i))(k \<mapsto> a + amount)\<rparr>" "is_satisfied p'"
    using finishing_call [OF s that] .
  ultimately show ?thesis by blast
qed

theorem finish_implies_released_witness:
  "GameState_init 1 level1_scaled level1_sample (\<lambda>n. 0) = Inr level1_state \<and>
   amounts_nonneg [(''P1'', CPU, 1)] \<and>
   run level1_state [(''P1'', CPU, 1)] = Inr cpu_given_state \<and>
   finished_released cpu_given_state \<and>
   is_satisfied ((processes cpu_given_state ! 0)\<lparr>allocated_resources :=
      (allocated_resources (processes cpu_given_state ! 0))(MEMORIA \<mapsto> 0 + 2)\<rparr>) \<and>
   (\<exists>gs'. allocate_resource cpu_given_state ''P1'' MEMORIA 2 = (Inr True, gs') \<and>
      state (processes gs' ! 0) = FINISHED \<and>
      (\<forall>rt. allocated_resources (processes gs' ! 0) rt = Some 0 \<and>
            available_of gs' rt =
              available_of cpu_given_state rt - (if rt = MEMORIA then 2 else 0) +
              get0 (allocated_resources ((processes cpu_given_state ! 0)\<lparr>allocated_resources :=
                (allocated_resources (processes cpu_given_state ! 0))(MEMORIA \<mapsto> 0 + 2)\<rparr>)) rt)) \<and>
   map (available_of (snd (allocate_resource cpu_given_state ''P1'' MEMORIA 2))) resource_types
     = [4, 4, 3, 2]"
proof -
  have n: "amounts_nonneg [(''P1'', CPU, 1)]"
    by (simp add: amounts_nonneg_def)
  have sat: "is_satisfied ((processes cpu_given_state ! 0)\<lparr>allocated_resources :=
      (allocated_resources (processes cpu_given_state ! 0))(MEMORIA \<mapsto> 0 + 2)\<rparr>)"
    by (simp add: cpu_given_state_def is_satisfied_def resource_types_def get0_def)
  have h: "0 \<le> (2::int) \<and> find_process (processes cpu_given_state) ''P1'' = Some 0 \<and>
     state (processes cpu_given_state ! 0) \<noteq> FINISHED \<and>
     resources cpu_given_state MEMORIA = Some \<lparr>type' = MEMORIA, total' = 4, available = 4\<rparr> \<and>
     2 \<le> available \<lparr>type' = MEMORIA, total' = 4, available = 4\<rparr> \<and>
     allocated_resources (processes cpu_given_state ! 0) MEMORIA = Some 0"
    by (simp add: cpu_given_state_def)
  have v: "map (available_of (snd (allocate_resource cpu_given_state ''P1'' MEMORIA 2))) resource_types
     = [4, 4, 3, 2]"
    by (simp add: cpu_given_state_def available_of_def compute_defs)
  from finish_implies_released [OF level1_created n cpu_given_reached,
      where amount = 2 and process_id = "''P1''" and i = 0 and k = MEMORIA
        and res = "\<lparr>type' = MEMORIA, total' = 4, available = 4\<rparr>" and a = 0
        and p' = "(processes cpu_given_state ! 0)\<lparr>allocated_resources :=
          (allocated_resources (processes cpu_given_state ! 0))(MEMORIA \<mapsto> 0 + 2)\<rparr>"]
    h sat
  have "finished_released cpu_given_state \<and>
    (\<exists>gs'. allocate_resource cpu_given_state ''P1'' MEMORIA 2 = (Inr True, gs') \<and>
      state (processes gs' ! 0) = FINISHED \<and>
      (\<forall>rt. allocated_resources (processes gs' ! 0) rt = Some 0 \<and>
            available_of gs' rt =
              available_of cpu_given_state rt - (if rt = MEMORIA then 2 else 0) +
              get0 (allocated_resources ((processes cpu_given_state ! 0)\<lparr>allocated_resources :=
                (allocated_resources (processes cpu_given_state ! 0))(MEMORIA \<mapsto> 0 + 2)\<rparr>)) rt))"
    by blast
  with level1_created n cpu_given_reached sat v show ?thesis
    by blast
qed

text \<open>
  C5 as stated fails with a negative amount: P1 is given -1 disk, then its CPU and its
  memory. The last call returns \<^verbatim>\<open>True\<close> and finishes P1, and the loop of
  \<^verbatim>\<open>_finish_process\<close> passes over the disk, whose amount is not positive: P1 is finished
  and holds -1 disk.
\<close>

theorem finish_implies_released_counterexample:
  "GameState_init 1 level1_scaled level1_sample (\<lambda>n. 0) = Inr level1_state \<and>
   run level1_state [(''P1'', DISCO, - 1), (''P1'', CPU, 1), (''P1'', MEMORIA, 2)] = Inr debt_state \<and>
   state (processes debt_state ! 0) = FINISHED \<and>
   allocated_resources (processes debt_state ! 0) DISCO = Some (- 1) \<and>
   \<not> finished_released debt_state"
  using level1_created debt_reached
  by (simp add: debt_state_def finished_released_def resource_types_def)

subsection \<open>Level creation: the processes\<close>

lemma vary_requirements_at:
  assumes "distinct (map fst items)" and "draws_in_range randint"
  shows "case map_of items rt of
           None \<Rightarrow> fst (vary_requirements lvl randint n items varied) rt = varied rt
         | Some amount \<Rightarrow>
             if lvl > 2
             then fst (vary_requirements lvl randint n items varied) rt = Some (max 1 (amount - 1)) \<or>
                  fst (vary_requirements lvl randint n items varied) rt = Some (max 1 amount) \<or>
                  fst (vary_requirements lvl randint n items varied) rt = Some (max 1 (amount + 1))
             else fst (vary_requirements lvl randint n items varied) rt = Some (max 1 amount)"
  using assms(1)
proof (induction items arbitrary: n varied)
  case Nil
  show ?case by simp
next
  case (Cons item items)
  obtain k a where item: "item = (k, a)" by (cases item) auto
  from Cons.prems item have d: "distinct (map fst items)" and k: "k \<notin> fst ` set items"
    by auto
  from k have none: "map_of items k = None"
    by (simp add: map_of_eq_None_iff)
  have r: "randint n = - 1 \<or> randint n = 0 \<or> randint n = 1"
    using assms(2) by (simp add: draws_in_range_def)
  show ?case
  proof (cases "rt = k")
    case True
    show ?thesis
    proof (cases "lvl > 2")
      case True
      from Cons.IH [OF d, of "Suc n" "varied(k \<mapsto> max 1 (a + randint n))"] none \<open>rt = k\<close>
      have "fst (vary_requirements lvl randint (Suc n) items (varied(k \<mapsto> max 1 (a + randint n)))) k
              = Some (max 1 (a + randint n))"
        by simp
      with True \<open>rt = k\<close> item r show ?thesis by auto
    next
      case False
      from Cons.IH [OF d, of n "varied(k \<mapsto> max 1 (a + 0))"] none \<open>rt = k\<close>
      have "fst (vary_requirements lvl randint n items (varied(k \<mapsto> max 1 (a + 0)))) k
              = Some (max 1 (a + 0))"
        by simp
      with False \<open>rt = k\<close> item show ?thesis by simp
    qed
  next
    case False
    show ?thesis
    proof (cases "lvl > 2")
      case True
      define v where "v = varied(k \<mapsto> max 1 (a + randint n))"
      have v: "v rt = varied rt" using False by (simp add: v_def)
      have step: "vary_requirements lvl randint n (item # items) varied =
          vary_requirements lvl randint (Suc n) items v"
        using True item by (simp add: v_def)
      from Cons.IH [OF d, of "Suc n" v] False item
      show ?thesis unfolding step by (simp add: v split: option.splits)
    next
      case lv: False
      define v where "v = varied(k \<mapsto> max 1 (a + 0))"
      have v: "v rt = varied rt" using False by (simp add: v_def)
      have step: "vary_requirements lvl randint n (item # items) varied =
          vary_requirements lvl randint n items v"
        using lv item by (simp add: v_def)
      from Cons.IH [OF d, of n v] False item
      show ?thesis unfolding step by (simp add: v split: option.splits)
    qed
  qed
qed

lemma process_templates_ok: "list_all template_ok process_templates"
  by (simp add: process_templates_def template_ok_def)

lemma is_sample_ok: "is_sample lvl selected \<Longrightarrow> t \<in> set selected \<Longrightarrow> template_ok t"
  using process_templates_ok by (auto simp: is_sample_def list_all_iff)

lemma allowed_requirement_vary:
  assumes "template_ok (nm, items)" and "draws_in_range randint"
  shows "allowed_requirement lvl items rt (fst (vary_requirements lvl randint n items Map.empty) rt)"
proof -
  from assms(1) have d: "distinct (map fst items)" and pos: "\<And>k a. (k, a) \<in> set items \<Longrightarrow> 1 \<le> a"
    by (auto simp: template_ok_def list_all_iff)
  note v = vary_requirements_at [OF d assms(2), where rt = rt and lvl = lvl and n = n and varied = Map.empty]
  show ?thesis
  proof (cases "map_of items rt")
    case None
    with v show ?thesis by (simp add: allowed_requirement_def)
  next
    case (Some a)
    then have "(rt, a) \<in> set items" by (rule map_of_SomeD)
    then have "1 \<le> a" by (rule pos)
    with v Some show ?thesis
      by (auto simp: allowed_requirement_def split: if_splits)
  qed
qed

lemma allowed_requirement_positive:
  "allowed_requirement lvl items rt (Some r) \<Longrightarrow> template_ok (nm, items) \<Longrightarrow> 1 \<le> r"
proof -
  assume a: "allowed_requirement lvl items rt (Some r)" and t: "template_ok (nm, items)"
  from a obtain amount where m: "map_of items rt = Some amount"
    by (cases "map_of items rt") (auto simp: allowed_requirement_def)
  then have "(rt, amount) \<in> set items" by (rule map_of_SomeD)
  with t have "1 \<le> amount" by (auto simp: template_ok_def list_all_iff)
  with a m show ?thesis
    by (auto simp: allowed_requirement_def split: if_splits)
qed

lemma length_make_processes: "length (make_processes lvl randint n i selected) = length selected"
proof (induction selected arbitrary: n i)
  case Nil
  show ?case by simp
next
  case (Cons t selected)
  obtain nm items where t: "t = (nm, items)" by (cases t) auto
  show ?case using Cons.IH by (simp add: t split: prod.splits)
qed

lemma make_processes_nth:
  assumes "\<And>t. t \<in> set selected \<Longrightarrow> template_ok t" and "draws_in_range randint"
    and "j < length selected"
  shows "name (make_processes lvl randint n i selected ! j) = fst (selected ! j) \<and>
         id' (make_processes lvl randint n i selected ! j) = ''P'' @ str_nat (i + j + 1) \<and>
         state (make_processes lvl randint n i selected ! j) = WAITING \<and>
         allocated_resources (make_processes lvl randint n i selected ! j) = zero_allocation \<and>
         (\<forall>rt. allowed_requirement lvl (snd (selected ! j)) rt
                 (required_resources (make_processes lvl randint n i selected ! j) rt))"
  using assms(1,3)
proof (induction selected arbitrary: n i j)
  case Nil
  then show ?case by simp
next
  case (Cons t selected)
  obtain nm items where t: "t = (nm, items)" by (cases t) auto
  obtain varied n' where v: "vary_requirements lvl randint n items Map.empty = (varied, n')"
    by (cases "vary_requirements lvl randint n items Map.empty") auto
  have mk: "make_processes lvl randint n i (t # selected) =
      Process_init (''P'' @ str_nat (i + 1)) nm varied zero_allocation
        # make_processes lvl randint n' (i + 1) selected"
    by (simp add: t v)
  show ?case
  proof (cases j)
    case 0
    have ok: "template_ok (nm, items)" using Cons.prems(1) [of t] t by simp
    have "allowed_requirement lvl items rt (varied rt)" for rt
      using allowed_requirement_vary [OF ok assms(2), where lvl = lvl and rt = rt and n = n] v by simp
    with 0 show ?thesis
      unfolding mk by (simp add: t Process_init_zero)
  next
    case (Suc j')
    with Cons.prems have j': "j' < length selected" by simp
    have "\<And>t. t \<in> set selected \<Longrightarrow> template_ok t" using Cons.prems(1) by simp
    from Cons.IH [OF this j', of n' "i + 1"] Suc show ?thesis
      unfolding mk by simp
  qed
qed

text \<open>
  C9. For every level from 1 on, every sample that \<^verbatim>\<open>random.sample\<close> can return and
  every sequence of draws of \<^verbatim>\<open>random.randint(-1, 1)\<close>, \<^verbatim>\<open>_generate_processes\<close> does not
  raise and returns \<open>min (2 + level) 6\<close> processes. Each is waiting, named after its
  template, with allocation 0 for every kind; it requires the kinds of its template and
  no other; at levels 1 and 2 it requires the template's amounts, above level 2 the
  amount with an offset of -1, 0 or 1 and at least 1; and every amount it requires is at
  least 1.
\<close>

theorem generated_processes:
  assumes "1 \<le> lvl" and "is_sample lvl selected" and "draws_in_range randint"
  shows "\<exists>ps. generate_processes lvl selected randint = Inr ps \<and>
           int (length ps) = min (2 + lvl) 6 \<and>
           (\<forall>j<length ps.
              name (ps ! j) = fst (selected ! j) \<and> state (ps ! j) = WAITING \<and>
              (\<forall>rt. allocated_resources (ps ! j) rt = Some 0 \<and>
                    allowed_requirement lvl (snd (selected ! j)) rt (required_resources (ps ! j) rt) \<and>
                    (\<forall>r. required_resources (ps ! j) rt = Some r \<longrightarrow> 1 \<le> r)))"
proof -
  let ?ps = "make_processes lvl randint 0 0 selected"
  have size: "sample_size lvl = min (2 + lvl) 6"
    by (simp add: sample_size_def process_count_def process_templates_def)
  with assms(1) have gen: "generate_processes lvl selected randint = Inr ?ps"
    by (simp add: generate_processes_def)
  have len: "int (length ?ps) = min (2 + lvl) 6"
    using assms(2) size by (simp add: length_make_processes is_sample_def)
  have each: "name (?ps ! j) = fst (selected ! j) \<and> state (?ps ! j) = WAITING \<and>
      (\<forall>rt. allocated_resources (?ps ! j) rt = Some 0 \<and>
            allowed_requirement lvl (snd (selected ! j)) rt (required_resources (?ps ! j) rt) \<and>
            (\<forall>r. required_resources (?ps ! j) rt = Some r \<longrightarrow> 1 \<le> r))"
    if "j < length ?ps" for j
  proof -
    from that have j: "j < length selected" by (simp add: length_make_processes)
    have ok: "\<And>t. t \<in> set selected \<Longrightarrow> template_ok t"
      using assms(2) by (rule is_sample_ok)
    note m = make_processes_nth [OF ok assms(3) j, of lvl 0 0]
    have tj: "template_ok (fst (selected ! j), snd (selected ! j))"
      using ok [of "selected ! j"] j by simp
    have "1 \<le> r" if "required_resources (?ps ! j) rt = Some r" for rt r
      using m that allowed_requirement_positive [OF _ tj, of lvl rt r]
      by (metis)
    with m show ?thesis
      by (simp add: zero_allocation_Some)
  qed
  from gen len each show ?thesis by blast
qed

lemma is_sample_level3: "is_sample 3 level3_sample"
  by (simp add: is_sample_def level3_sample_def process_templates_def sample_size_def
      process_count_def)

theorem generated_processes_witness:
  "(1::int) \<le> 3 \<and> is_sample 3 level3_sample \<and> draws_in_range (\<lambda>n. - 1) \<and>
   (\<exists>ps. generate_processes 3 level3_sample (\<lambda>n. - 1) = Inr ps \<and>
      int (length ps) = min (2 + 3) 6 \<and>
      (\<forall>j<length ps.
         name (ps ! j) = fst (level3_sample ! j) \<and> state (ps ! j) = WAITING \<and>
         (\<forall>rt. allocated_resources (ps ! j) rt = Some 0 \<and>
               allowed_requirement 3 (snd (level3_sample ! j)) rt (required_resources (ps ! j) rt) \<and>
               (\<forall>r. required_resources (ps ! j) rt = Some r \<longrightarrow> 1 \<le> r)))) \<and>
   (case generate_processes 3 level3_sample (\<lambda>n. - 1) of
      Inl e \<Rightarrow> []
    | Inr ps \<Rightarrow> map (\<lambda>p. (id' p, map (required_resources p) resource_types)) ps) =
     [(''P1'', [Some 1, Some 1, None, None]),
      (''P2'', [Some 1, Some 1, Some 1, None]),
      (''P3'', [None, Some 1, Some 1, None]),
      (''P4'', [None, Some 1, None, Some 1]),
      (''P5'', [Some 1, Some 1, Some 1, None])]"
proof -
  have d: "draws_in_range (\<lambda>n. - 1)"
    by (simp add: draws_in_range_def)
  have l: "(1::int) \<le> 3" by simp
  have v: "(case generate_processes 3 level3_sample (\<lambda>n. - 1) of
      Inl e \<Rightarrow> []
    | Inr ps \<Rightarrow> map (\<lambda>p. (id' p, map (required_resources p) resource_types)) ps) =
     [(''P1'', [Some 1, Some 1, None, None]),
      (''P2'', [Some 1, Some 1, Some 1, None]),
      (''P3'', [None, Some 1, Some 1, None]),
      (''P4'', [None, Some 1, None, Some 1]),
      (''P5'', [Some 1, Some 1, Some 1, None])]"
    by (simp add: generate_processes_def sample_size_def process_count_def level3_sample_def
        process_templates_def Process_init_def resource_types_def zero_allocation_def
        str_nat.simps digit_def)
  from generated_processes [OF l is_sample_level3 d] is_sample_level3 d v
  show ?thesis by simp
qed

subsection \<open>A request of amount zero\<close>

lemma steady_iff:
  "steady gs \<longleftrightarrow>
     keys_complete gs \<and> (\<forall>rt. 0 \<le> available_of gs rt \<and> 0 \<le> total_of gs rt) \<and>
     (\<forall>p\<in>set (processes gs). state p \<noteq> FINISHED \<longrightarrow> \<not> is_satisfied p)"
  using resource_types_all by (auto simp: steady_def list_all_iff)

lemma is_satisfied_iff:
  "is_satisfied p \<longleftrightarrow>
     (\<forall>rt r. required_resources p rt = Some r \<longrightarrow> r \<le> get0 (allocated_resources p) rt)"
  using resource_types_all
  by (auto simp: is_satisfied_def list_all_iff not_less split: option.splits)

lemma transfer_steady:
  assumes s: "steady gs"
    and i: "i < length (processes gs)"
    and res: "resources gs k = Some res" and le: "amount \<le> available res"
    and a: "allocated_resources (processes gs ! i) k = Some a"
    and p': "p' = (processes gs ! i)\<lparr>allocated_resources :=
               (allocated_resources (processes gs ! i))(k \<mapsto> a + amount)\<rparr>"
    and unsat: "\<not> is_satisfied p'"
    and gs': "resources gs' = (resources gs)(k \<mapsto> res\<lparr>available := available res - amount\<rparr>)"
       "processes gs' = (processes gs)[i := p']"
  shows "steady gs'"
proof -
  have mem: "processes gs ! i \<in> set (processes gs)" using i by simp
  have k: "keys_complete gs'"
    using s gs' p' mem
    by (auto simp: steady_iff keys_complete_iff dest!: set_update_cases)
  have q: "0 \<le> available_of gs' rt \<and> 0 \<le> total_of gs' rt" for rt
    using s res le gs' spec [where x = rt]
    by (auto simp: steady_iff available_of_alt total_of_def split: option.splits)
  have u: "\<not> is_satisfied p" if "p \<in> set (processes gs')" "state p \<noteq> FINISHED" for p
  proof -
    from that(1) gs' have "p = p' \<or> p \<in> set (processes gs)"
      by (auto dest!: set_update_cases)
    then show ?thesis
      using unsat s that(2) by (auto simp: steady_iff)
  qed
  from k q u show ?thesis by (auto simp: steady_iff)
qed

lemma allocate_resource_steady:
  assumes s: "steady gs"
  shows "\<exists>ok gs'. allocate_resource gs process_id k amount = (Inr ok, gs') \<and> steady gs'"
proof (cases "find_process (processes gs) process_id")
  case None
  with s show ?thesis by (auto simp: allocate_resource_unknown)
next
  case (Some i)
  then have i: "i < length (processes gs)" by (simp add: find_process_Some)
  let ?p = "processes gs ! i"
  have mem: "?p \<in> set (processes gs)" using i by simp
  show ?thesis
  proof (cases "state ?p = FINISHED")
    case True
    with Some s show ?thesis by (auto simp: allocate_resource_finished)
  next
    case un: False
    from s have "resources gs k \<noteq> None"
      unfolding steady_iff keys_complete_iff by blast
    then obtain res where res: "resources gs k = Some res" by auto
    show ?thesis
    proof (cases "available res < amount")
      case True
      with res s show ?thesis by (auto simp: allocate_resource_insufficient)
    next
      case False
      then have le: "amount \<le> available res" by simp
      from s mem have "allocated_resources ?p k \<noteq> None"
        unfolding steady_iff keys_complete_iff by blast
      then obtain a where a: "allocated_resources ?p k = Some a" by auto
      define p' where "p' = ?p\<lparr>allocated_resources := (allocated_resources ?p)(k \<mapsto> a + amount)\<rparr>"
      show ?thesis
      proof (cases "is_satisfied p'")
        case False
        note eq = allocate_resource_transfer [OF Some un res le a p'_def False]
        let ?gs' = "gs\<lparr>resources := (resources gs)(k \<mapsto> res\<lparr>available := available res - amount\<rparr>),
                        processes := (processes gs)[i := p'], moves := moves gs + 1,
                        game_log := game_log gs @ [Alocado amount k process_id]\<rparr>"
        have "steady ?gs'"
          by (rule transfer_steady [OF s i res le a p'_def False]) simp_all
        then show ?thesis using eq by auto
      next
        case True
        define T where "T = gs\<lparr>resources := (resources gs)(k \<mapsto> res\<lparr>available := available res - amount\<rparr>),
                                processes := (processes gs)[i := p']\<rparr>"
        have T: "resources T = (resources gs)(k \<mapsto> res\<lparr>available := available res - amount\<rparr>)"
          "processes T = (processes gs)[i := p']"
          by (simp_all add: T_def)
        have kT: "keys_complete T"
          using s mem by (auto simp: T steady_iff keys_complete_iff p'_def dest!: set_update_cases)
        have qT: "0 \<le> available_of T rt \<and> 0 \<le> total_of T rt" for rt
          using s res le spec [where x = rt]
          by (auto simp: T steady_iff available_of_alt total_of_def split: option.splits)
        have pc: "pool_complete gs"
          using s by (simp add: steady_iff keys_complete_iff pool_complete_iff)
        note eq = allocate_resource_finish [OF Some un res le a p'_def True pc]
        let ?gs' = "gs\<lparr>resources := released_pool
             ((resources gs)(k \<mapsto> res\<lparr>available := available res - amount\<rparr>))
             (allocated_resources p'),
           processes := (processes gs)[i := p'\<lparr>state := FINISHED,
                                               allocated_resources := cleared (allocated_resources p')\<rparr>],
           moves := moves gs + 1,
           game_log := game_log gs @
             [Finalizado process_id (name (processes gs ! i)), Alocado amount k process_id]\<rparr>"
        have k': "keys_complete ?gs'"
        proof -
          have "resources ?gs' rt \<noteq> None" for rt
            using kT by (auto simp: T keys_complete_iff released_pool_def split: option.splits)
          moreover have "allocated_resources p rt \<noteq> None" if "p \<in> set (processes ?gs')" for p rt
          proof -
            from that have "p = p'\<lparr>state := FINISHED, allocated_resources := cleared (allocated_resources p')\<rparr>
                \<or> p \<in> set (processes gs)"
              by (auto dest!: set_update_cases)
            moreover have "allocated_resources p' rt \<noteq> None"
              using s mem unfolding steady_iff keys_complete_iff p'_def by auto
            ultimately show ?thesis
              using s by (auto simp: steady_iff keys_complete_iff cleared_def split: option.splits)
          qed
          ultimately show ?thesis by (simp add: keys_complete_iff)
        qed
        have q': "0 \<le> available_of ?gs' rt \<and> 0 \<le> total_of ?gs' rt" for rt
          using qT [of rt]
          by (auto simp: T available_of_alt total_of_def released_pool_def release_def
              split: option.splits if_splits)
        have u': "\<not> is_satisfied p" if "p \<in> set (processes ?gs')" "state p \<noteq> FINISHED" for p
        proof -
          from that(1) have "p = p'\<lparr>state := FINISHED, allocated_resources := cleared (allocated_resources p')\<rparr>
                \<or> p \<in> set (processes gs)"
            by (auto dest!: set_update_cases)
          then show ?thesis
            using s that(2) by (auto simp: steady_iff)
        qed
        have "steady ?gs'"
          using k' q' u' unfolding steady_iff by blast
        then show ?thesis using eq by auto
      qed
    qed
  qed
qed

lemma run_steady:
  "steady gs \<Longrightarrow> \<exists>gs'. run gs calls = Inr gs' \<and> steady gs'"
proof (induction calls arbitrary: gs)
  case Nil
  then show ?case by simp
next
  case (Cons c calls)
  obtain process_id k amount where c: "c = (process_id, k, amount)"
    by (cases c) auto
  from allocate_resource_steady [OF Cons.prems, of process_id k amount]
  obtain ok gs1 where step: "allocate_resource gs process_id k amount = (Inr ok, gs1)"
    and s1: "steady gs1"
    by blast
  from Cons.IH [OF s1] obtain gs' where "run gs1 calls = Inr gs'" "steady gs'"
    by blast
  with step c show ?case by simp
qed

lemma vary_requirements_keeps:
  "rt \<in> fst ` set items \<or> (\<exists>r. varied rt = Some r \<and> 1 \<le> r) \<Longrightarrow>
   \<exists>r. fst (vary_requirements lvl randint n items varied) rt = Some r \<and> 1 \<le> r"
proof (induction items arbitrary: n varied)
  case Nil
  then show ?case by simp
next
  case (Cons item items)
  obtain k a where item: "item = (k, a)" by (cases item) auto
  show ?case
  proof (cases "lvl > 2")
    case True
    define v where "v = varied(k \<mapsto> max 1 (a + randint n))"
    have step: "vary_requirements lvl randint n (item # items) varied =
        vary_requirements lvl randint (Suc n) items v"
      using True item by (simp add: v_def)
    have "rt \<in> fst ` set items \<or> (\<exists>r. v rt = Some r \<and> 1 \<le> r)"
      using Cons.prems item by (auto simp: v_def)
    then show ?thesis unfolding step by (rule Cons.IH)
  next
    case False
    define v where "v = varied(k \<mapsto> max 1 (a + 0))"
    have step: "vary_requirements lvl randint n (item # items) varied =
        vary_requirements lvl randint n items v"
      using False item by (simp add: v_def)
    have "rt \<in> fst ` set items \<or> (\<exists>r. v rt = Some r \<and> 1 \<le> r)"
      using Cons.prems item by (auto simp: v_def)
    then show ?thesis unfolding step by (rule Cons.IH)
  qed
qed

lemma make_processes_unsatisfied:
  assumes "\<And>t. t \<in> set selected \<Longrightarrow> template_ok t"
    and "p \<in> set (make_processes lvl randint n i selected)"
  shows "\<not> is_satisfied p"
  using assms
proof (induction selected arbitrary: n i)
  case Nil
  then show ?case by simp
next
  case (Cons t selected)
  obtain nm items where t: "t = (nm, items)" by (cases t) auto
  obtain varied n' where v: "vary_requirements lvl randint n items Map.empty = (varied, n')"
    by (cases "vary_requirements lvl randint n items Map.empty") auto
  from Cons.prems(2) t v
  consider "p = Process_init (''P'' @ str_nat (i + 1)) nm varied zero_allocation"
    | "p \<in> set (make_processes lvl randint n' (i + 1) selected)"
    by auto
  then show ?case
  proof cases
    case 1
    have "template_ok (nm, items)" using Cons.prems(1) [of t] t by simp
    then obtain k a where "(k, a) \<in> set items"
      by (cases items) (auto simp: template_ok_def)
    then have "k \<in> fst ` set items" by force
    from vary_requirements_keeps [of k items Map.empty lvl randint n] this v
    obtain r where "varied k = Some r" "1 \<le> r" by auto
    then have "\<exists>rt r. varied rt = Some r \<and> \<not> r \<le> 0"
      by (intro exI [of _ k] exI [of _ r]) simp
    with 1 show ?thesis
      by (simp add: is_satisfied_iff Process_init_zero get0_def zero_allocation_Some)
  next
    case 2
    with Cons.IH [of n' "i + 1"] Cons.prems(1) show ?thesis by simp
  qed
qed

lemma created_steady:
  assumes "is_sample lvl selected" and "GameState_init lvl scaled selected randint = Inr gs0"
  shows "steady gs0"
proof -
  note f = GameState_init_fields [OF assms(2)]
  have k: "keys_complete gs0"
    using created_sound [OF assms(2)] by (simp add: sound_def)
  have q: "0 \<le> available_of gs0 rt \<and> 0 \<le> total_of gs0 rt" for rt
    using initialize_resources_at [of scaled rt] f(2)
    by (auto simp: available_of_alt total_of_def)
  have u: "\<not> is_satisfied p" if "p \<in> set (processes gs0)" for p
    using that f(3) make_processes_unsatisfied [OF is_sample_ok [OF assms(1)], of selected p lvl randint 0 0]
    by simp
  from k q u show ?thesis by (auto simp: steady_iff)
qed

lemma zero_request:
  assumes f: "find_process (processes gs) process_id = Some i"
    and un: "state (processes gs ! i) \<noteq> FINISHED"
    and unsat: "\<not> is_satisfied (processes gs ! i)"
    and res: "resources gs k = Some res" and nn: "0 \<le> available res"
    and a: "allocated_resources (processes gs ! i) k = Some a"
  shows "allocate_resource gs process_id k 0 =
     (Inr True, gs\<lparr>moves := moves gs + 1, game_log := game_log gs @ [Alocado 0 k process_id]\<rparr>)"
proof -
  have i: "i < length (processes gs)" using f by (simp add: find_process_Some)
  define p' where "p' = (processes gs ! i)\<lparr>allocated_resources :=
               (allocated_resources (processes gs ! i))(k \<mapsto> a + 0)\<rparr>"
  have same: "p' = processes gs ! i"
    using a by (simp add: p'_def map_upd_triv)
  then have "\<not> is_satisfied p'" using unsat by simp
  note eq = allocate_resource_transfer [OF f un res nn a p'_def this]
  have "(resources gs)(k \<mapsto> res\<lparr>available := available res - 0\<rparr>) = resources gs"
    using res by (simp add: map_upd_triv)
  moreover have "(processes gs)[i := p'] = processes gs"
    using same by simp
  ultimately show ?thesis using eq by simp
qed

lemma zero_requests:
  assumes f: "find_process (processes gs) process_id = Some i"
    and un: "state (processes gs ! i) \<noteq> FINISHED"
    and unsat: "\<not> is_satisfied (processes gs ! i)"
    and res: "resources gs k = Some res" and nn: "0 \<le> available res"
    and a: "allocated_resources (processes gs ! i) k = Some a"
  shows "run gs (replicate n (process_id, k, 0)) =
     Inr (gs\<lparr>moves := moves gs + int n,
             game_log := game_log gs @ replicate n (Alocado 0 k process_id)\<rparr>)"
  using assms
proof (induction n arbitrary: gs)
  case 0
  show ?case by simp
next
  case (Suc n)
  let ?gs1 = "gs\<lparr>moves := moves gs + 1, game_log := game_log gs @ [Alocado 0 k process_id]\<rparr>"
  have step: "allocate_resource gs process_id k 0 = (Inr True, ?gs1)"
    by (rule zero_request [OF Suc.prems])
  have "run ?gs1 (replicate n (process_id, k, 0)) =
     Inr (?gs1\<lparr>moves := moves ?gs1 + int n,
             game_log := game_log ?gs1 @ replicate n (Alocado 0 k process_id)\<rparr>)"
    using Suc.prems by (intro Suc.IH) simp_all
  with step show ?case
    by (simp add: replicate_app_Cons_same)
qed

lemma allocate_resource_max_moves:
  "max_moves (snd (allocate_resource gs process_id k amount)) = max_moves gs"
  by (auto simp: allocate_resource_def finish_process_def allocate_def Let_def
      split: option.splits prod.splits sum.splits)

lemma run_max_moves: "run gs calls = Inr gs' \<Longrightarrow> max_moves gs' = max_moves gs"
proof (induction calls arbitrary: gs)
  case Nil
  then show ?case by simp
next
  case (Cons c calls)
  obtain process_id k amount where c: "c = (process_id, k, amount)"
    by (cases c) auto
  obtain r gs1 where step: "allocate_resource gs process_id k amount = (r, gs1)"
    by (cases "allocate_resource gs process_id k amount") auto
  with Cons.prems c obtain ok where "r = Inr ok" and rest: "run gs1 calls = Inr gs'"
    by (cases r) auto
  from Cons.IH [OF rest] allocate_resource_max_moves [of gs process_id k amount] step
  show ?case by simp
qed

text \<open>
  C10. In every state reached from the creation of a level by calls of
  \<^verbatim>\<open>allocate_resource\<close> (with any amounts), a request of amount 0 for a process that exists
  and is not finished returns \<^verbatim>\<open>True\<close>; the state after it is the state before with the
  move counter one higher and the entry of the call appended to the log, so the pool and
  every allocation are as they were. Any number of such requests in a row does the same,
  and the move limit is 20: twenty of them reach it with nothing transferred.
\<close>

theorem zero_amount_request:
  assumes "is_sample lvl selected" and "GameState_init lvl scaled selected randint = Inr gs0"
    and "run gs0 calls = Inr gs"
    and "find_process (processes gs) process_id = Some i"
    and "state (processes gs ! i) \<noteq> FINISHED"
  shows "allocate_resource gs process_id k 0 =
           (Inr True,
            gs\<lparr>moves := moves gs + 1, game_log := game_log gs @ [Alocado 0 k process_id]\<rparr>) \<and>
         run gs (replicate n (process_id, k, 0)) =
           Inr (gs\<lparr>moves := moves gs + int n,
                   game_log := game_log gs @ replicate n (Alocado 0 k process_id)\<rparr>) \<and>
         max_moves gs = 20"
proof -
  from run_steady [OF created_steady [OF assms(1,2)], of calls] assms(3)
  have s: "steady gs" by auto
  have i: "i < length (processes gs)" using assms(4) by (simp add: find_process_Some)
  then have mem: "processes gs ! i \<in> set (processes gs)" by simp
  from s mem assms(5) have unsat: "\<not> is_satisfied (processes gs ! i)"
    unfolding steady_iff by blast
  from s have "resources gs k \<noteq> None"
    unfolding steady_iff keys_complete_iff by blast
  then obtain res where res: "resources gs k = Some res" by auto
  from s have "0 \<le> available_of gs k" by (simp add: steady_iff)
  with res have nn: "0 \<le> available res" by (simp add: available_of_alt)
  from s mem have "allocated_resources (processes gs ! i) k \<noteq> None"
    unfolding steady_iff keys_complete_iff by blast
  then obtain a where a: "allocated_resources (processes gs ! i) k = Some a" by auto
  have "max_moves gs = 20"
    using run_max_moves [OF assms(3)] GameState_init_fields(6) [OF assms(2)] by simp
  with zero_request [OF assms(4,5) unsat res nn a] zero_requests [OF assms(4,5) unsat res nn a, of n]
  show ?thesis by simp
qed

theorem zero_amount_request_witness:
  "is_sample 1 level1_sample \<and>
   GameState_init 1 level1_scaled level1_sample (\<lambda>n. 0) = Inr level1_state \<and>
   run level1_state [(''P1'', DISCO, 3), (''P2'', MEMORIA, 4)] = Inr hogged_state \<and>
   find_process (processes hogged_state) ''P3'' = Some 2 \<and>
   state (processes hogged_state ! 2) \<noteq> FINISHED \<and>
   allocate_resource hogged_state ''P3'' MEMORIA 0 =
     (Inr True,
      hogged_state\<lparr>moves := moves hogged_state + 1,
                   game_log := game_log hogged_state @ [Alocado 0 MEMORIA ''P3'']\<rparr>) \<and>
   run hogged_state (replicate 18 (''P3'', MEMORIA, 0)) =
     Inr (hogged_state\<lparr>moves := moves hogged_state + int 18,
                       game_log := game_log hogged_state @ replicate 18 (Alocado 0 MEMORIA ''P3'')\<rparr>) \<and>
   max_moves hogged_state = 20 \<and> moves hogged_state + int 18 = 20"
proof -
  have f: "find_process (processes hogged_state) ''P3'' = Some 2"
    by (simp add: hogged_state_def)
  have u: "state (processes hogged_state ! 2) \<noteq> FINISHED"
    by (simp add: hogged_state_def)
  have m: "moves hogged_state + int 18 = 20"
    by (simp add: hogged_state_def)
  from zero_amount_request [OF is_sample_level1 level1_created hogged_reached f u,
      of MEMORIA 18]
    is_sample_level1 level1_created hogged_reached f u m
  show ?thesis by blast
qed

subsection \<open>Allocation and requirement\<close>

lemma over_reached: "run level1_state [(''P1'', CPU, 2)] = Inr over_state"
  by (simp add: level1_state_def over_state_def compute_defs fun_eq_iff)

lemma within_requirements_iff:
  "within_requirements gs \<longleftrightarrow>
     (\<forall>p\<in>set (processes gs). \<forall>rt. get0 (allocated_resources p) rt \<le> get0 (required_resources p) rt)"
  using resource_types_all by (auto simp: within_requirements_def list_all_iff)

lemma allocate_resource_within:
  assumes s: "steady gs" and w: "within_requirements gs"
    and c: "call_within_need gs (process_id, k, amount)"
  shows "within_requirements (snd (allocate_resource gs process_id k amount))"
proof (cases "find_process (processes gs) process_id")
  case None
  with w show ?thesis by (simp add: allocate_resource_unknown)
next
  case (Some i)
  then have i: "i < length (processes gs)" by (simp add: find_process_Some)
  let ?p = "processes gs ! i"
  have mem: "?p \<in> set (processes gs)" using i by simp
  from c Some have need: "amount \<le> get0 (required_resources ?p) k - get0 (allocated_resources ?p) k"
    by (simp add: call_within_need_def)
  show ?thesis
  proof (cases "state ?p = FINISHED")
    case True
    with Some w show ?thesis by (simp add: allocate_resource_finished)
  next
    case un: False
    from s have "resources gs k \<noteq> None"
      unfolding steady_iff keys_complete_iff by blast
    then obtain res where res: "resources gs k = Some res" by auto
    show ?thesis
    proof (cases "available res < amount")
      case True
      with res w show ?thesis by (simp add: allocate_resource_insufficient)
    next
      case False
      then have le: "amount \<le> available res" by simp
      from s mem have "allocated_resources ?p k \<noteq> None"
        unfolding steady_iff keys_complete_iff by blast
      then obtain a where a: "allocated_resources ?p k = Some a" by auto
      define p' where "p' = ?p\<lparr>allocated_resources := (allocated_resources ?p)(k \<mapsto> a + amount)\<rparr>"
      have wp: "get0 (allocated_resources ?p) rt \<le> get0 (required_resources ?p) rt" for rt
        using w mem by (simp add: within_requirements_iff)
      have wp': "get0 (allocated_resources p') rt \<le> get0 (required_resources p') rt" for rt
        using wp [of rt] need a by (simp add: p'_def get0_def)
      show ?thesis
      proof (cases "is_satisfied p'")
        case False
        note eq = allocate_resource_transfer [OF Some un res le a p'_def False]
        have "get0 (allocated_resources p) rt \<le> get0 (required_resources p) rt"
          if "p \<in> set ((processes gs)[i := p'])" for p rt
        proof -
          from that have "p = p' \<or> p \<in> set (processes gs)"
            by (auto dest!: set_update_cases)
          then show ?thesis using wp' w by (auto simp: within_requirements_iff)
        qed
        then show ?thesis by (simp add: eq within_requirements_iff)
      next
        case True
        have pc: "pool_complete gs"
          using s by (simp add: steady_iff keys_complete_iff pool_complete_iff)
        note eq = allocate_resource_finish [OF Some un res le a p'_def True pc]
        let ?q = "p'\<lparr>state := FINISHED, allocated_resources := cleared (allocated_resources p')\<rparr>"
        have wq: "get0 (allocated_resources ?q) rt \<le> get0 (required_resources ?q) rt" for rt
          using wp' [of rt] by (auto simp: cleared_def get0_def split: option.splits)
        have "get0 (allocated_resources p) rt \<le> get0 (required_resources p) rt"
          if "p \<in> set ((processes gs)[i := ?q])" for p rt
        proof -
          from that have "p = ?q \<or> p \<in> set (processes gs)"
            by (auto dest!: set_update_cases)
          then show ?thesis using wq w by (auto simp: within_requirements_iff)
        qed
        then show ?thesis by (simp add: eq within_requirements_iff)
      qed
    qed
  qed
qed

lemma run_within:
  "steady gs \<Longrightarrow> within_requirements gs \<Longrightarrow> calls_within_need gs calls \<Longrightarrow>
   run gs calls = Inr gs' \<Longrightarrow> within_requirements gs'"
proof (induction calls arbitrary: gs)
  case Nil
  then show ?case by simp
next
  case (Cons c calls)
  obtain process_id k amount where c: "c = (process_id, k, amount)"
    by (cases c) auto
  from allocate_resource_steady [OF Cons.prems(1), of process_id k amount]
  obtain ok gs1 where step: "allocate_resource gs process_id k amount = (Inr ok, gs1)"
    and s1: "steady gs1"
    by blast
  from Cons.prems(3) c step have cw: "call_within_need gs (process_id, k, amount)"
    and rest: "calls_within_need gs1 calls"
    by simp_all
  have w1: "within_requirements gs1"
    using allocate_resource_within [OF Cons.prems(1,2) cw] step by simp
  from Cons.prems(4) c step have "run gs1 calls = Inr gs'" by simp
  from Cons.IH [OF s1 w1 rest this] show ?case .
qed

lemma vary_requirements_positive:
  "(\<And>rt r. varied rt = Some r \<Longrightarrow> 1 \<le> r) \<Longrightarrow>
   fst (vary_requirements lvl randint n items varied) rt = Some r \<Longrightarrow> 1 \<le> r"
proof (induction items arbitrary: n varied)
  case Nil
  then show ?case by simp
next
  case (Cons item items)
  obtain k a where item: "item = (k, a)" by (cases item) auto
  show ?case
  proof (cases "lvl > 2")
    case True
    define v where "v = varied(k \<mapsto> max 1 (a + randint n))"
    have step: "vary_requirements lvl randint n (item # items) varied =
        vary_requirements lvl randint (Suc n) items v"
      using True item by (simp add: v_def)
    have pv: "\<And>rt r. v rt = Some r \<Longrightarrow> 1 \<le> r"
      using Cons.prems(1) by (auto simp: v_def split: if_splits)
    have "fst (vary_requirements lvl randint (Suc n) items v) rt = Some r"
      using Cons.prems(2) unfolding step .
    with pv Cons.IH [where varied = v and n = "Suc n"] show ?thesis by blast
  next
    case False
    define v where "v = varied(k \<mapsto> max 1 (a + 0))"
    have step: "vary_requirements lvl randint n (item # items) varied =
        vary_requirements lvl randint n items v"
      using False item by (simp add: v_def)
    have pv: "\<And>rt r. v rt = Some r \<Longrightarrow> 1 \<le> r"
      using Cons.prems(1) by (auto simp: v_def split: if_splits)
    have "fst (vary_requirements lvl randint n items v) rt = Some r"
      using Cons.prems(2) unfolding step .
    with pv Cons.IH [where varied = v and n = n] show ?thesis by blast
  qed
qed

lemma make_processes_positive:
  "p \<in> set (make_processes lvl randint n i selected) \<Longrightarrow>
   required_resources p rt = Some r \<Longrightarrow> 1 \<le> r"
proof (induction selected arbitrary: n i)
  case Nil
  then show ?case by simp
next
  case (Cons t selected)
  obtain nm items where t: "t = (nm, items)" by (cases t) auto
  obtain varied n' where v: "vary_requirements lvl randint n items Map.empty = (varied, n')"
    by (cases "vary_requirements lvl randint n items Map.empty") auto
  from Cons.prems(1) t v
  consider "p = Process_init (''P'' @ str_nat (i + 1)) nm varied zero_allocation"
    | "p \<in> set (make_processes lvl randint n' (i + 1) selected)"
    by auto
  then show ?case
  proof cases
    case 1
    with Cons.prems(2) have "varied rt = Some r" by (simp add: Process_init_zero)
    with vary_requirements_positive [of Map.empty lvl randint n items rt r] v
    show ?thesis by simp
  next
    case 2
    from Cons.IH [OF this Cons.prems(2)] show ?thesis .
  qed
qed

lemma created_within:
  assumes "GameState_init lvl scaled selected randint = Inr gs0"
  shows "within_requirements gs0"
proof -
  have "get0 (allocated_resources p) rt \<le> get0 (required_resources p) rt"
    if "p \<in> set (processes gs0)" for p rt
  proof -
    have m: "p \<in> set (make_processes lvl randint 0 0 selected)"
      using that GameState_init_fields(3) [OF assms] by simp
    then have a: "allocated_resources p = zero_allocation"
      using make_processes_fresh by blast
    show ?thesis
    proof (cases "required_resources p rt")
      case None
      with a show ?thesis by (simp add: get0_def zero_allocation_Some)
    next
      case (Some r)
      with m have "1 \<le> r" by (rule make_processes_positive)
      with a Some show ?thesis by (simp add: get0_def zero_allocation_Some)
    qed
  qed
  then show ?thesis by (simp add: within_requirements_iff)
qed

text \<open>
  C3, amended. In every state reached from the creation of a level by calls that each ask
  for no more than the process they name still needs (the amount is at most
  \<^verbatim>\<open>required[kind] - allocated[kind]\<close>), \<^verbatim>\<open>allocated[kind] \<le> required[kind]\<close> holds for
  every process and every kind, a kind that the process does not require counting as a
  requirement of 0.
\<close>

theorem allocation_within_requirement:
  assumes "is_sample lvl selected" and "GameState_init lvl scaled selected randint = Inr gs0"
    and "calls_within_need gs0 calls" and "run gs0 calls = Inr gs"
  shows "\<forall>p\<in>set (processes gs). \<forall>rt.
           get0 (allocated_resources p) rt \<le> get0 (required_resources p) rt"
  using run_within [OF created_steady [OF assms(1,2)] created_within [OF assms(2)] assms(3,4)]
  by (simp add: within_requirements_iff)

lemma completing_calls_within_need:
  "calls_within_need level1_state
     [(''P1'', CPU, 1), (''P1'', MEMORIA, 2), (''P2'', CPU, 2), (''P2'', MEMORIA, 1),
      (''P2'', DISCO, 1), (''P3'', DISCO, 2), (''P3'', MEMORIA, 1)]"
  by (simp add: level1_state_def call_within_need_def compute_defs)

theorem allocation_within_requirement_witness:
  "is_sample 1 level1_sample \<and>
   GameState_init 1 level1_scaled level1_sample (\<lambda>n. 0) = Inr level1_state \<and>
   calls_within_need level1_state
     [(''P1'', CPU, 1), (''P1'', MEMORIA, 2), (''P2'', CPU, 2), (''P2'', MEMORIA, 1),
      (''P2'', DISCO, 1), (''P3'', DISCO, 2), (''P3'', MEMORIA, 1)] \<and>
   run level1_state
     [(''P1'', CPU, 1), (''P1'', MEMORIA, 2), (''P2'', CPU, 2), (''P2'', MEMORIA, 1),
      (''P2'', DISCO, 1), (''P3'', DISCO, 2), (''P3'', MEMORIA, 1)] = Inr completed_state \<and>
   within_requirements completed_state"
  using allocation_within_requirement [OF is_sample_level1 level1_created
      completing_calls_within_need completed_reached]
    is_sample_level1 level1_created completing_calls_within_need completed_reached
  by (simp add: within_requirements_iff)

text \<open>
  C3 as stated fails: at level 1, P1 requires one CPU and \<^verbatim>\<open>allocate_resource\<close> gives it
  two when asked to; P1 still waits for memory and holds 2 > 1.
\<close>

theorem allocation_within_requirement_counterexample:
  "GameState_init 1 level1_scaled level1_sample (\<lambda>n. 0) = Inr level1_state \<and>
   run level1_state [(''P1'', CPU, 2)] = Inr over_state \<and>
   state (processes over_state ! 0) = WAITING \<and>
   required_resources (processes over_state ! 0) CPU = Some 1 \<and>
   allocated_resources (processes over_state ! 0) CPU = Some 2 \<and>
   \<not> within_requirements over_state"
  using level1_created over_reached
  by (simp add: over_state_def within_requirements_def resource_types_def get0_def)

subsection \<open>Deadlock detection and safe orders\<close>

lemma add_allocated_on:
  assumes "distinct rts" and "\<And>rt. avail rt \<noteq> None"
  shows "add_allocated rts allocated avail =
     Inr (\<lambda>rt. if rt \<in> set rts then map_option (\<lambda>v. v + get0 allocated rt) (avail rt) else avail rt)"
  using assms
proof (induction rts arbitrary: avail)
  case Nil
  show ?case by simp
next
  case (Cons rt rts)
  from Cons.prems(2) [of rt] obtain v where v: "avail rt = Some v"
    by (cases "avail rt") simp_all
  show ?case
  proof (cases "allocated rt")
    case None
    have "add_allocated rts allocated avail =
      Inr (\<lambda>rt. if rt \<in> set rts then map_option (\<lambda>v. v + get0 allocated rt) (avail rt) else avail rt)"
      using Cons.prems by (intro Cons.IH) auto
    with None v show ?thesis
      by (auto simp: fun_eq_iff get0_def)
  next
    case (Some a)
    define w where "w = avail(rt \<mapsto> v + a)"
    have "add_allocated rts allocated w =
      Inr (\<lambda>rt. if rt \<in> set rts then map_option (\<lambda>v. v + get0 allocated rt) (w rt) else w rt)"
      using Cons.prems by (intro Cons.IH) (auto simp: w_def)
    moreover have "add_allocated (rt # rts) allocated avail = add_allocated rts allocated w"
      using Some v by (simp add: w_def)
    ultimately show ?thesis
      using Some v Cons.prems(1) by (auto simp: fun_eq_iff get0_def w_def)
  qed
qed

lemma add_allocated_give_back:
  assumes "\<And>rt. avail rt \<noteq> None"
  shows "add_allocated resource_types (allocated_resources p) avail = Inr (give_back p avail)"
  using add_allocated_on [OF distinct_resource_types assms, of "allocated_resources p"]
  by (simp add: resource_types_all give_back_def)

lemma give_back_keys: "give_back p avail rt \<noteq> None \<longleftrightarrow> avail rt \<noteq> None"
  by (simp add: give_back_def)

lemma give_back_commute: "give_back p (give_back q avail) = give_back q (give_back p avail)"
proof
  fix rt
  show "give_back p (give_back q avail) rt = give_back q (give_back p avail) rt"
    by (cases "avail rt") (simp_all add: give_back_def)
qed

lemma get0_give_back:
  "get0 (give_back p avail) rt =
     (if avail rt = None then 0 else get0 avail rt + get0 (allocated_resources p) rt)"
  by (auto simp: give_back_def get0_def split: option.splits)

lemma can_finish_iff:
  "can_finish p avail \<longleftrightarrow>
     (\<forall>rt r. required_resources p rt = Some r \<longrightarrow>
        r - get0 (allocated_resources p) rt \<le> get0 avail rt)"
  using resource_types_all
  by (auto simp: can_finish_def list_all_iff Let_def not_less split: option.splits)

lemma can_finish_mono:
  "can_finish p a \<Longrightarrow> (\<And>rt. get0 a rt \<le> get0 b rt) \<Longrightarrow> can_finish p b"
  unfolding can_finish_iff by (meson order_trans)

lemma give_back_grows:
  assumes "\<And>rt. 0 \<le> get0 (allocated_resources q) rt"
  shows "get0 avail rt \<le> get0 (give_back q avail) rt"
proof (cases "avail rt")
  case None
  then show ?thesis by (simp add: give_back_def get0_def)
next
  case (Some v)
  with assms [of rt] show ?thesis by (simp add: give_back_def get0_def)
qed

lemma finishes_exchange:
  assumes "finishes_in_order avail order" and "p \<in> set order" and "can_finish p avail"
    and "\<And>q rt. q \<in> set order \<Longrightarrow> 0 \<le> get0 (allocated_resources q) rt"
  shows "finishes_in_order (give_back p avail) (remove1 p order)"
  using assms
proof (induction order arbitrary: avail)
  case Nil
  then show ?case by simp
next
  case (Cons q order)
  show ?case
  proof (cases "p = q")
    case True
    with Cons.prems(1) show ?thesis by simp
  next
    case False
    with Cons.prems(2) have mem: "p \<in> set order" by simp
    have nq: "\<And>rt. 0 \<le> get0 (allocated_resources q) rt"
      using Cons.prems(4) by simp
    have np: "\<And>rt. 0 \<le> get0 (allocated_resources p) rt"
      using Cons.prems(2,4) by blast
    from Cons.prems(1) have cq: "can_finish q avail"
      and rest: "finishes_in_order (give_back q avail) order"
      by simp_all
    have cq': "can_finish q (give_back p avail)"
      using cq give_back_grows [of p, OF np] by (rule can_finish_mono)
    have cp': "can_finish p (give_back q avail)"
      using Cons.prems(3) give_back_grows [of q, OF nq] by (rule can_finish_mono)
    have "finishes_in_order (give_back p (give_back q avail)) (remove1 p order)"
      using rest mem cp' Cons.prems(4) by (intro Cons.IH) auto
    then have "finishes_in_order (give_back q (give_back p avail)) (remove1 p order)"
      by (simp add: give_back_commute)
    with cq' False show ?thesis by simp
  qed
qed

lemma detect_pass_complete:
  assumes "\<And>rt. avail rt \<noteq> None"
  shows "detect_pass avail unfinished =
     (case find (\<lambda>process. can_finish process avail) unfinished of
        None \<Rightarrow> Inr (avail, unfinished, False)
      | Some process \<Rightarrow> Inr (give_back process avail, remove1 process unfinished, True))"
  by (simp add: detect_pass_def add_allocated_give_back [OF assms] split: option.splits)

lemma nobody_finishes:
  assumes "find (\<lambda>process. can_finish process avail) unfinished = None"
    and "unfinished \<noteq> []" and "mset order = mset unfinished"
  shows "\<not> finishes_in_order avail order"
proof
  assume f: "finishes_in_order avail order"
  from assms(2,3) obtain q rest where o: "order = q # rest"
    by (cases order) auto
  with assms(3) have "q \<in> set unfinished"
    by (metis list.set_intros(1) set_mset_mset)
  with assms(1) have "\<not> can_finish q avail"
    by (simp add: find_None_iff)
  with f o show False by simp
qed

lemma detect_loop_correct:
  assumes "\<And>rt. avail rt \<noteq> None"
    and "\<And>q rt. q \<in> set unfinished \<Longrightarrow> 0 \<le> get0 (allocated_resources q) rt"
  shows "\<exists>left. detect_loop avail unfinished changed = Inr left \<and>
           (if changed
            then (left = []) = (\<exists>order. mset order = mset unfinished \<and> finishes_in_order avail order)
            else left = unfinished)"
  using assms
proof (induction avail unfinished changed rule: detect_loop.induct)
  case (1 avail unfinished changed)
  show ?case
  proof (cases "changed \<and> unfinished \<noteq> []")
    case False
    show ?thesis
    proof (cases changed)
      case True
      with False have "unfinished = []" by simp
      then show ?thesis
        using True by (subst detect_loop.simps) auto
    next
      case False
      then show ?thesis by (subst detect_loop.simps) simp
    qed
  next
    case True
    note pass = detect_pass_complete [OF "1.prems"(1), where unfinished = unfinished]
    show ?thesis
    proof (cases "find (\<lambda>process. can_finish process avail) unfinished")
      case None
      then have p: "detect_pass avail unfinished = Inr (avail, unfinished, False)"
        using pass by simp
      have stop: "detect_loop avail unfinished False = Inr unfinished"
        by (subst detect_loop.simps) simp
      have "detect_loop avail unfinished changed = Inr unfinished"
        using True p stop by (subst detect_loop.simps) simp
      moreover have "\<not> (\<exists>order. mset order = mset unfinished \<and> finishes_in_order avail order)"
        using nobody_finishes [OF None] True by blast
      ultimately show ?thesis using True by simp
    next
      case (Some p)
      then have p: "detect_pass avail unfinished = Inr (give_back p avail, remove1 p unfinished, True)"
        using pass by simp
      from Some have mem: "p \<in> set unfinished" and cf: "can_finish p avail"
        by (auto simp: find_Some_iff)
      have keys: "give_back p avail rt \<noteq> None" for rt
        using "1.prems"(1) [of rt] by (simp add: give_back_def)
      have nn: "\<And>q rt. q \<in> set (remove1 p unfinished) \<Longrightarrow> 0 \<le> get0 (allocated_resources q) rt"
        using "1.prems"(2) by (meson notin_set_remove1)
      from "1.IH" [OF True p refl refl keys nn]
      obtain left where l: "detect_loop (give_back p avail) (remove1 p unfinished) True = Inr left"
        and iff: "(left = []) =
          (\<exists>order. mset order = mset (remove1 p unfinished) \<and>
                   finishes_in_order (give_back p avail) order)"
        by auto
      have eq: "detect_loop avail unfinished changed = Inr left"
        using True p l by (subst detect_loop.simps) simp
      have "(\<exists>order. mset order = mset (remove1 p unfinished) \<and>
                   finishes_in_order (give_back p avail) order) =
            (\<exists>order. mset order = mset unfinished \<and> finishes_in_order avail order)"
      proof
        assume "\<exists>order. mset order = mset (remove1 p unfinished) \<and>
                   finishes_in_order (give_back p avail) order"
        then obtain order where o: "mset order = mset (remove1 p unfinished)"
          "finishes_in_order (give_back p avail) order" by blast
        have "mset (p # order) = mset unfinished"
          using o(1) mem by simp
        moreover have "finishes_in_order avail (p # order)"
          using cf o(2) by simp
        ultimately show "\<exists>order. mset order = mset unfinished \<and> finishes_in_order avail order"
          by blast
      next
        assume "\<exists>order. mset order = mset unfinished \<and> finishes_in_order avail order"
        then obtain order where o: "mset order = mset unfinished" "finishes_in_order avail order"
          by blast
        have so: "set order = set unfinished"
          using o(1) by (metis set_mset_mset)
        have "finishes_in_order (give_back p avail) (remove1 p order)"
          using o(2) _ cf
        proof (rule finishes_exchange)
          show "p \<in> set order" using so mem by simp
          show "0 \<le> get0 (allocated_resources q) rt" if "q \<in> set order" for q rt
            using that so "1.prems"(2) by simp
        qed
        moreover have "mset (remove1 p order) = mset (remove1 p unfinished)"
          using o(1) by simp
        ultimately show "\<exists>order. mset order = mset (remove1 p unfinished) \<and>
                   finishes_in_order (give_back p avail) order"
          by blast
      qed
      with eq iff True show ?thesis by simp
    qed
  qed
qed

lemma is_sample_other: "is_sample 1 other_sample"
  by (simp add: is_sample_def other_sample_def process_templates_def sample_size_def
      process_count_def)

lemma other_created: "GameState_init 1 level1_scaled other_sample (\<lambda>n. 0) = Inr other_state"
  by (simp add: GameState_init_def generate_processes_def sample_size_def process_count_def
      process_templates_def other_sample_def Process_init_def initialize_resources_def
      base_amounts_def level1_scaled_def resource_types_def other_state_def digit_def
      zero_allocation_def str_nat.simps)

lemma tangled_reached:
  "run other_state
     [(''P1'', IMPRESSORA, - 1), (''P1'', MEMORIA, 2), (''P2'', MEMORIA, 2), (''P3'', IMPRESSORA, 2)]
   = Inr tangled_state"
  by (simp add: other_state_def tangled_state_def tangled_editor_def tangled_printing_def
      tangled_browser_def compute_defs fun_eq_iff)

lemma mset_unfinished_of:
  "mset (processes gs') = mset (processes gs) \<Longrightarrow> mset (unfinished_of gs') = mset (unfinished_of gs)"
  by (simp add: unfinished_of_def)

lemma unfinished_nonneg_iff:
  "unfinished_nonneg gs \<longleftrightarrow>
     (\<forall>p\<in>set (unfinished_of gs). \<forall>rt. 0 \<le> get0 (allocated_resources p) rt)"
  using resource_types_all by (auto simp: unfinished_nonneg_def list_all_iff)

lemma detect_deadlock_safe:
  assumes "pool_complete gs" and "unfinished_nonneg gs"
  shows "fst (detect_deadlock gs) = Inr (\<not> safe gs)"
proof -
  let ?avail = "get_available_resources gs"
  have keys: "\<And>rt. ?avail rt \<noteq> None"
    using assms(1) by (simp add: pool_complete_iff get_available_resources_def)
  have nn: "\<And>q rt. q \<in> set (unfinished_of gs) \<Longrightarrow> 0 \<le> get0 (allocated_resources q) rt"
    using assms(2) by (simp add: unfinished_nonneg_iff)
  have "\<exists>left. detect_loop ?avail (unfinished_of gs) True = Inr left \<and>
           (if True
            then (left = []) =
              (\<exists>order. mset order = mset (unfinished_of gs) \<and> finishes_in_order ?avail order)
            else left = unfinished_of gs)"
    by (rule detect_loop_correct) (use keys nn in blast)+
  then obtain left where l: "detect_loop ?avail (unfinished_of gs) True = Inr left"
    and iff: "(left = []) = safe gs"
    by (auto simp: safe_def)
  show ?thesis
  proof (cases "unfinished_of gs = []")
    case True
    then have "safe gs"
      by (auto simp: safe_def intro: exI [of _ "[]"])
    with True show ?thesis by (simp add: detect_deadlock_def)
  next
    case False
    with l iff show ?thesis by (auto simp: detect_deadlock_def)
  qed
qed

text \<open>
  C1, amended. For every game state whose pool has all four kinds and in which no
  unfinished process holds a negative amount, \<^verbatim>\<open>detect_deadlock()\<close> returns \<^verbatim>\<open>False\<close> if
  there is an order in which all the unfinished processes can finish one after the other,
  each returning its full allocation to the working pool, and \<^verbatim>\<open>True\<close> if there is none;
  so its result is the same for every state with the same pool and the same processes in
  another order.
\<close>

theorem detect_deadlock_correct:
  assumes "pool_complete gs" and "unfinished_nonneg gs"
  shows "fst (detect_deadlock gs) = Inr (\<not> safe gs) \<and>
         (mset (processes gs') = mset (processes gs) \<and> resources gs' = resources gs \<longrightarrow>
            fst (detect_deadlock gs') = fst (detect_deadlock gs))"
proof (intro conjI impI)
  show d: "fst (detect_deadlock gs) = Inr (\<not> safe gs)"
    using assms by (rule detect_deadlock_safe)
  assume r: "mset (processes gs') = mset (processes gs) \<and> resources gs' = resources gs"
  then have m: "mset (processes gs') = mset (processes gs)"
    and rs: "resources gs' = resources gs"
    by blast+
  have u: "mset (unfinished_of gs') = mset (unfinished_of gs)"
    using m by (rule mset_unfinished_of)
  then have su: "set (unfinished_of gs') = set (unfinished_of gs)"
    by (rule mset_eq_setD)
  have p': "pool_complete gs'"
    using assms(1) unfolding pool_complete_iff rs .
  have n': "unfinished_nonneg gs'"
    using assms(2) unfolding unfinished_nonneg_iff su .
  have a: "get_available_resources gs' = get_available_resources gs"
    unfolding get_available_resources_def rs ..
  have "safe gs' = safe gs"
    unfolding safe_def a u ..
  then have "fst (detect_deadlock gs') = Inr (\<not> safe gs)"
    using detect_deadlock_safe [OF p' n'] by (simp only:)
  with d show "fst (detect_deadlock gs') = fst (detect_deadlock gs)"
    by (simp only:)
qed

theorem detect_deadlock_correct_witness:
  "pool_complete hogged_state \<and> unfinished_nonneg hogged_state \<and>
   fst (detect_deadlock hogged_state) = Inr True \<and> \<not> safe hogged_state \<and>
   mset (processes (hogged_state\<lparr>processes := rev (processes hogged_state)\<rparr>)) =
     mset (processes hogged_state) \<and>
   fst (detect_deadlock (hogged_state\<lparr>processes := rev (processes hogged_state)\<rparr>)) = Inr True \<and>
   pool_complete level1_state \<and> unfinished_nonneg level1_state \<and>
   fst (detect_deadlock level1_state) = Inr False \<and> safe level1_state"
proof -
  have p: "pool_complete hogged_state"
    by (simp add: pool_complete_def hogged_state_def resource_types_def)
  have n: "unfinished_nonneg hogged_state"
    by (simp add: unfinished_nonneg_def hogged_state_def unfinished_of_def resource_types_def get0_def)
  have m: "mset (processes (hogged_state\<lparr>processes := rev (processes hogged_state)\<rparr>)) =
     mset (processes hogged_state)"
    by simp
  have r: "resources (hogged_state\<lparr>processes := rev (processes hogged_state)\<rparr>) =
     resources hogged_state"
    by simp
  have d: "fst (detect_deadlock hogged_state) = Inr True"
    by (simp add: hogged_deadlock)
  from detect_deadlock_correct [OF p n,
      where gs' = "hogged_state\<lparr>processes := rev (processes hogged_state)\<rparr>"] m r d
  have h: "\<not> safe hogged_state \<and>
    fst (detect_deadlock (hogged_state\<lparr>processes := rev (processes hogged_state)\<rparr>)) = Inr True"
    by simp
  have p1: "pool_complete level1_state"
    by (simp add: pool_complete_def level1_state_def resource_types_def)
  have n1: "unfinished_nonneg level1_state"
    by (simp add: unfinished_nonneg_def level1_state_def unfinished_of_def resource_types_def
        get0_def zero_allocation_def)
  have d1: "fst (detect_deadlock level1_state) = Inr False"
    by (simp add: level1_no_deadlock)
  from detect_deadlock_correct [OF p1 n1, where gs' = level1_state] d1
  have s1: "safe level1_state" by simp
  from p n d h m p1 n1 d1 s1 show ?thesis by blast
qed

text \<open>
  C1 as stated fails when an unfinished process holds a negative amount. In the state
  below P1 holds -1 printer. The scan takes P1 first, which can finish, and adding its
  allocation takes a printer from the working pool; then P2 lacks a printer and P3 a
  unit of memory, and \<^verbatim>\<open>detect_deadlock()\<close> returns \<^verbatim>\<open>True\<close>. Yet in the order P2, P1, P3
  every process finishes, and with the list in that order the method returns \<^verbatim>\<open>False\<close>.
\<close>

theorem detect_deadlock_counterexample:
  "GameState_init 1 level1_scaled other_sample (\<lambda>n. 0) = Inr other_state \<and>
   run other_state
     [(''P1'', IMPRESSORA, - 1), (''P1'', MEMORIA, 2), (''P2'', MEMORIA, 2), (''P3'', IMPRESSORA, 2)]
     = Inr tangled_state \<and>
   fst (detect_deadlock tangled_state) = Inr True \<and>
   mset [tangled_printing, tangled_editor, tangled_browser] = mset (unfinished_of tangled_state) \<and>
   finishes_in_order (get_available_resources tangled_state)
     [tangled_printing, tangled_editor, tangled_browser] \<and>
   fst (detect_deadlock
         (tangled_state\<lparr>processes := [tangled_printing, tangled_editor, tangled_browser]\<rparr>))
     = Inr False"
proof -
  have a: "fst (detect_deadlock tangled_state) = Inr True"
    by (simp add: tangled_state_def tangled_editor_def tangled_printing_def tangled_browser_def
        detect_deadlock_def detect_loop.simps detect_pass_def compute_defs)
  have b: "mset [tangled_printing, tangled_editor, tangled_browser] = mset (unfinished_of tangled_state)"
    by (simp add: tangled_state_def tangled_editor_def tangled_printing_def tangled_browser_def
        unfinished_of_def)
  have c: "finishes_in_order (get_available_resources tangled_state)
     [tangled_printing, tangled_editor, tangled_browser]"
    by (simp add: tangled_state_def tangled_editor_def tangled_printing_def tangled_browser_def
        give_back_def compute_defs)
  have d: "fst (detect_deadlock
         (tangled_state\<lparr>processes := [tangled_printing, tangled_editor, tangled_browser]\<rparr>))
     = Inr False"
    by (simp add: tangled_state_def tangled_editor_def tangled_printing_def tangled_browser_def
        detect_deadlock_def detect_loop.simps detect_pass_def compute_defs)
  from other_created tangled_reached a b c d show ?thesis by blast
qed


end
